theory Spec2Isabelle
  imports Complex_Main "HOL-Library.Log_Nat"
begin

section \<open>Binary64 numbers\<close>

text \<open>
  A mass-flow is a C++ \<^verbatim>\<open>double\<close>, an IEEE 754 binary64 number. Every finite binary64
  number is an integer multiple of \<open>2^-1074\<close>, the smallest positive one, so a finite
  number is kept as that integer: \<^verbatim>\<open>Finite k\<close> stands for \<open>k * 2^-1074\<close>, and
  \<^verbatim>\<open>Finite 0\<close> for the zero with the positive sign. \<^verbatim>\<open>NegZero\<close> is the zero with the
  negative sign, and \<^verbatim>\<open>NaN\<close> stands for every NaN. In these units the number 1 is
  \<open>2^1074\<close>, and the first magnitude too large to be finite, \<open>2^1024\<close>, is \<open>2^2098\<close>.

  Two values of this type are equal when they are the same number with the same sign.
  The comparison \<^verbatim>\<open>==\<close> of C++, under which a NaN differs from itself and the two
  zeros are equal, occurs nowhere in the classes and is not modelled.
\<close>

datatype double = Finite int | NegZero | PosInf | NegInf | NaN

definition one_units :: int where
  "one_units = 2 ^ 1074"

definition max_units :: int where
  "max_units = 2 ^ 2098"

text \<open>
  The number of binary digits of a natural number. An integer is a binary64 number when
  it is below the overflow bound and its digits beyond the first 53 are zero.
\<close>

fun bits :: "nat \<Rightarrow> nat" where
  "bits n = (if n = 0 then 0 else Suc (bits (n div 2)))"

declare bits.simps [simp del]

definition representable :: "int \<Rightarrow> bool" where
  "representable k \<longleftrightarrow> \<bar>k\<bar> < max_units \<and> 2 ^ (bits (nat \<bar>k\<bar>) - 53) dvd k"

fun is_double :: "double \<Rightarrow> bool" where
  "is_double (Finite k) = representable k"
| "is_double x = True"

text \<open>
  An arithmetic operation yields the exact result rounded to the nearest binary64 number,
  a tie going to the one with the even last digit: the rounding a C++ program computes
  with unless it changes the mode, which this code does not. \<^term>\<open>round_units\<close> takes
  the exact result in units. The spacing of the binary64 numbers around it is \<open>2^j\<close>,
  with \<open>j = 0\<close> below \<open>2^53\<close> units (the subnormal numbers and the first binade of the
  normal ones). A result that rounds to zero keeps its sign, and one that rounds to
  \<open>2^1024\<close> or beyond becomes an infinity.
\<close>

definition round_half_even :: "rat \<Rightarrow> int" where
  "round_half_even x =
     (let f = \<lfloor>x\<rfloor>; d = x - of_int f in
      if d < 1 / 2 then f
      else if 1 / 2 < d then f + 1
      else if even f then f else f + 1)"

definition round_units :: "rat \<Rightarrow> double" where
  "round_units x =
     (let j = bits (nat \<lfloor>\<bar>x\<bar>\<rfloor>) - 53;
          k = round_half_even (x / 2 ^ j) * 2 ^ j
      in if max_units \<le> \<bar>k\<bar> then (if x < 0 then NegInf else PosInf)
         else if k = 0 then (if x < 0 then NegZero else Finite 0)
         else Finite k)"

fun is_nan :: "double \<Rightarrow> bool" where
  "is_nan NaN = True"
| "is_nan x = False"

fun is_inf :: "double \<Rightarrow> bool" where
  "is_inf PosInf = True"
| "is_inf NegInf = True"
| "is_inf x = False"

fun is_zero :: "double \<Rightarrow> bool" where
  "is_zero (Finite k) = (k = 0)"
| "is_zero NegZero = True"
| "is_zero x = False"

fun negative :: "double \<Rightarrow> bool" where
  "negative (Finite k) = (k < 0)"
| "negative NegZero = True"
| "negative NegInf = True"
| "negative x = False"

fun units :: "double \<Rightarrow> int" where
  "units (Finite k) = k"
| "units x = 0"

definition signed_zero :: "bool \<Rightarrow> double" where
  "signed_zero neg = (if neg then NegZero else Finite 0)"

definition signed_inf :: "bool \<Rightarrow> double" where
  "signed_inf neg = (if neg then NegInf else PosInf)"

text \<open>
  Addition, as in \<^verbatim>\<open>sum_mass_flow += ...\<close>: a NaN operand or two infinities of
  opposite sign give NaN, an infinity otherwise wins, two negative zeros give the
  negative zero, and everything else is the rounded exact sum, an exact sum of zero being
  the positive zero.
\<close>

definition dadd :: "double \<Rightarrow> double \<Rightarrow> double" where
  "dadd x y =
     (if is_nan x \<or> is_nan y then NaN
      else if is_inf x then (if is_inf y \<and> x \<noteq> y then NaN else x)
      else if is_inf y then y
      else if x = NegZero \<and> y = NegZero then NegZero
      else round_units (of_int (units x + units y)))"

text \<open>
  Division, as in \<^verbatim>\<open>sum_mass_flow / outputs.size()\<close> and \<^verbatim>\<open>inputMass / 2.0\<close>: the
  sign of the result is the product of the signs; an infinity by an infinity and a zero
  by a zero give NaN; the quotient of two finite numbers that are not zero is the rounded
  exact quotient, which in units is \<open>(a / b) * 2^1074\<close>.
\<close>

definition ddiv :: "double \<Rightarrow> double \<Rightarrow> double" where
  "ddiv x y =
     (if is_nan x \<or> is_nan y then NaN
      else if is_inf x then (if is_inf y then NaN else signed_inf (negative x \<noteq> negative y))
      else if is_inf y then signed_zero (negative x \<noteq> negative y)
      else if is_zero y then (if is_zero x then NaN else signed_inf (negative x \<noteq> negative y))
      else if is_zero x then signed_zero (negative x \<noteq> negative y)
      else round_units (of_int (units x) * of_int one_units / of_int (units y)))"

text \<open>
  The conversions of an integer literal or value (\<^verbatim>\<open>0\<close>, \<^verbatim>\<open>2.0\<close>, the \<^verbatim>\<open>10.0\<close> of a
  test) and of a \<^verbatim>\<open>size_t\<close> to \<^verbatim>\<open>double\<close> round as well.
\<close>

definition double_of_int :: "int \<Rightarrow> double" where
  "double_of_int i = round_units (of_int i * of_int one_units)"

definition double_of_size :: "nat \<Rightarrow> double" where
  "double_of_size n = round_units (of_nat n * of_int one_units)"

text \<open>
  The sum of a list of numbers as a loop computes it: from 0, left to right, rounding
  after every addition.
\<close>

definition double_sum :: "double list \<Rightarrow> double" where
  "double_sum xs = foldl dadd (double_of_int 0) xs"


section \<open>Streams and the store\<close>

text \<open>
  The simulation of \<^verbatim>\<open>device.cpp\<close> has three classes: \<^verbatim>\<open>Stream\<close>, the abstract
  \<^verbatim>\<open>Device\<close> and its two variants \<^verbatim>\<open>Mixer\<close> and \<^verbatim>\<open>Reactor\<close>. Devices hold
  \<^verbatim>\<open>shared_ptr<Stream>\<close> values, so one stream object may be attached several times, to
  one device or to several. A \<^verbatim>\<open>shared_ptr\<close> is therefore an address into an explicit
  store, and every write to a stream is a store update. Shared ownership keeps an attached
  stream alive, so the store is total; an empty \<^verbatim>\<open>shared_ptr\<close> is outside the model.
\<close>

type_synonym ref = nat

record Stream =
  mass_flow :: double
  name :: string

type_synonym store = "ref \<Rightarrow> Stream"

definition setName :: "string \<Rightarrow> Stream \<Rightarrow> Stream" where
  "setName s st = st\<lparr>name := s\<rparr>"

definition getName :: "Stream \<Rightarrow> string" where
  "getName st = name st"

definition setMassFlow :: "double \<Rightarrow> Stream \<Rightarrow> Stream" where
  "setMassFlow m st = st\<lparr>mass_flow := m\<rparr>"

definition getMassFlow :: "Stream \<Rightarrow> double" where
  "getMassFlow st = mass_flow st"

section \<open>Outcomes of a member function call\<close>

text \<open>
  The code throws two kinds of values: string literals (\<^verbatim>\<open>const char*\<close>) in
  \<^verbatim>\<open>Device\<close>, and \<^verbatim>\<open>std::string\<close> objects (the \<^verbatim>\<open>"..."s\<close> literals) in
  \<^verbatim>\<open>Mixer\<close> and \<^verbatim>\<open>Reactor\<close>. A call either returns, throws, or does something the
  language leaves undefined: an unchecked \<^verbatim>\<open>operator[]\<close> beyond the size of the vector,
  a read of an indeterminate member. A division by a size of zero is recorded as a
  fault as well, so that its absence is a theorem and not a convention of the model.
  Every call returns its outcome together with the state it leaves behind.
\<close>

datatype exn = CString string | StdString string

datatype fault = IndexOutOfBounds | DivisionByZero | IndeterminateRead

datatype outcome = Returned | Thrown exn | Undefined fault

fun is_Thrown :: "outcome \<Rightarrow> bool" where
  "is_Thrown (Thrown e) = True"
| "is_Thrown out = False"

fun is_Undefined :: "outcome \<Rightarrow> bool" where
  "is_Undefined (Undefined f) = True"
| "is_Undefined out = False"

definition vec_at :: "'a list \<Rightarrow> nat \<Rightarrow> 'a option" where
  "vec_at xs i = (if i < length xs then Some (xs ! i) else None)"

definition divide_by_size :: "double \<Rightarrow> nat \<Rightarrow> double option" where
  "divide_by_size x n = (if n = 0 then None else Some (ddiv x (double_of_size n)))"

text \<open>
  The comparisons \<^verbatim>\<open>inputs.size() < inputAmount\<close> and
  \<^verbatim>\<open>inputs.size() == _inputs_count\<close> compare a \<^verbatim>\<open>size_t\<close> with an \<^verbatim>\<open>int\<close>: the
  \<^verbatim>\<open>int\<close> is converted to the unsigned 64-bit type first, so a negative value becomes a
  very large one.
\<close>

definition size_t_of_int :: "int \<Rightarrow> nat" where
  "size_t_of_int i = nat (i mod 2 ^ 64)"

text \<open>
  The second file, \<^verbatim>\<open>device_with_gtest.cpp\<close>, holds the same classes; it differs in
  casting the size to \<^verbatim>\<open>int\<close> before each of these comparisons, and in omitting the
  lines printed by the reactor. The cast keeps the low 32 bits as a signed number.
\<close>

definition int_of_size_t :: "nat \<Rightarrow> int" where
  "int_of_size_t k = (int k + 2 ^ 31) mod 2 ^ 32 - 2 ^ 31"

section \<open>Device\<close>

text \<open>
  \<^verbatim>\<open>Device\<close> declares the two vectors and the two capacities and no constructor.
  \<^term>\<open>None\<close> stands for a capacity that is indeterminate, as default-initialisation
  would leave it. Both constructors of the repository name \<^verbatim>\<open>Device()\<close> in their
  initialiser list, which value-initialises the base: the vectors start empty and both
  capacities start at 0.
\<close>

record Device =
  inputs :: "ref list"
  outputs :: "ref list"
  inputAmount :: "int option"
  outputAmount :: "int option"

definition Device_addInput :: "ref \<Rightarrow> 'a Device_scheme \<Rightarrow> outcome \<times> 'a Device_scheme" where
  "Device_addInput s d =
     (case inputAmount d of
        None \<Rightarrow> (Undefined IndeterminateRead, d)
      | Some ia \<Rightarrow>
          if length (inputs d) < size_t_of_int ia
          then (Returned, d\<lparr>inputs := inputs d @ [s]\<rparr>)
          else (Thrown (CString ''INPUT STREAM LIMIT!''), d))"

definition Device_addOutput :: "ref \<Rightarrow> 'a Device_scheme \<Rightarrow> outcome \<times> 'a Device_scheme" where
  "Device_addOutput s d =
     (case outputAmount d of
        None \<Rightarrow> (Undefined IndeterminateRead, d)
      | Some oa \<Rightarrow>
          if length (outputs d) < size_t_of_int oa
          then (Returned, d\<lparr>outputs := outputs d @ [s]\<rparr>)
          else (Thrown (CString ''OUTPUT STREAM LIMIT!''), d))"

datatype call = AddInput ref | AddOutput ref | UpdateOutputs

section \<open>Mixer\<close>

text \<open>
  \<^verbatim>\<open>Mixer\<close> adds the member \<^verbatim>\<open>_inputs_count\<close> and never assigns the two capacities it
  inherits, which stay 0. Its own \<^verbatim>\<open>addInput\<close> and \<^verbatim>\<open>addOutput\<close> hide the ones of \<^verbatim>\<open>Device\<close> and
  test the size for equality with \<^verbatim>\<open>_inputs_count\<close> and \<^verbatim>\<open>MIXER_OUTPUTS\<close>.
\<close>

record Mixer = Device +
  inputs_count :: int

definition MIXER_OUTPUTS :: int where
  "MIXER_OUTPUTS = 1"

definition Mixer_init :: "int \<Rightarrow> Mixer" where
  "Mixer_init n =
     \<lparr>inputs = [], outputs = [], inputAmount = Some 0, outputAmount = Some 0,
      inputs_count = n\<rparr>"

definition Mixer_addInput :: "ref \<Rightarrow> Mixer \<Rightarrow> outcome \<times> Mixer" where
  "Mixer_addInput s m =
     (if length (inputs m) = size_t_of_int (inputs_count m)
      then (Thrown (StdString ''Too much inputs''), m)
      else (Returned, m\<lparr>inputs := inputs m @ [s]\<rparr>))"

definition Mixer_addOutput :: "ref \<Rightarrow> Mixer \<Rightarrow> outcome \<times> Mixer" where
  "Mixer_addOutput s m =
     (if length (outputs m) = size_t_of_int MIXER_OUTPUTS
      then (Thrown (StdString ''Too much outputs''), m)
      else (Returned, m\<lparr>outputs := outputs m @ [s]\<rparr>))"

text \<open>
  The two loops of \<^verbatim>\<open>Mixer::updateOutputs\<close> are folds from left to right: the first
  accumulates the mass-flows of the inputs by \<^verbatim>\<open>double\<close> addition, starting at 0, the
  second writes the quotient by the converted size into every output. The emptiness test stands between them, as in the code.
\<close>

definition Mixer_updateOutputs :: "Mixer \<times> store \<Rightarrow> outcome \<times> Mixer \<times> store" where
  "Mixer_updateOutputs st =
     (case st of (m, h) \<Rightarrow>
        let sum_mass_flow =
              fold (\<lambda>r acc. dadd acc (getMassFlow (h r))) (inputs m) (double_of_int 0) in
        if outputs m = []
        then (Thrown (StdString ''Should set outputs before update''), m, h)
        else
          (case divide_by_size sum_mass_flow (length (outputs m)) of
             None \<Rightarrow> (Undefined DivisionByZero, m, h)
           | Some output_mass \<Rightarrow>
               (Returned, m,
                fold (\<lambda>r h'. h'(r := setMassFlow output_mass (h' r))) (outputs m) h)))"

fun Mixer_call :: "call \<Rightarrow> Mixer \<times> store \<Rightarrow> outcome \<times> Mixer \<times> store" where
  "Mixer_call (AddInput s) (m, h) = (case Mixer_addInput s m of (out, m') \<Rightarrow> (out, m', h))"
| "Mixer_call (AddOutput s) (m, h) = (case Mixer_addOutput s m of (out, m') \<Rightarrow> (out, m', h))"
| "Mixer_call UpdateOutputs (m, h) = Mixer_updateOutputs (m, h)"

text \<open>
  A caller makes calls one after another and, like the test functions of the repository,
  catches what a call throws and goes on with the state the call left.
\<close>

fun Mixer_run :: "call list \<Rightarrow> Mixer \<times> store \<Rightarrow> Mixer \<times> store" where
  "Mixer_run [] st = st"
| "Mixer_run (c # cs) st = Mixer_run cs (snd (Mixer_call c st))"

section \<open>Reactor\<close>

record Reactor = Device +
  isDoubleOutput :: bool

definition Reactor_init :: "bool \<Rightarrow> Reactor" where
  "Reactor_init isDoubleReactor =
     \<lparr>inputs = [], outputs = [],
      inputAmount = Some 1,
      outputAmount = Some (if isDoubleReactor then 2 else 1),
      isDoubleOutput = isDoubleReactor\<rparr>"

text \<open>
  \<^verbatim>\<open>Reactor::updateOutputs\<close> makes its two checks, reads \<^verbatim>\<open>inputs[0]\<close> and writes
  \<^verbatim>\<open>outputs[0]\<close> and, in double mode, \<^verbatim>\<open>outputs[1]\<close>, in this order. The lines printed
  to \<^verbatim>\<open>cout\<close> are not part of the state and are left out.
\<close>

definition Reactor_updateOutputs :: "Reactor \<times> store \<Rightarrow> outcome \<times> Reactor \<times> store" where
  "Reactor_updateOutputs st =
     (case st of (r, h) \<Rightarrow>
        if inputs r = []
        then (Thrown (StdString ''Input stream not connected to reactor''), r, h)
        else
          (case outputAmount r of
             None \<Rightarrow> (Undefined IndeterminateRead, r, h)
           | Some oa \<Rightarrow>
               if length (outputs r) \<noteq> size_t_of_int oa
               then (Thrown (StdString ''Output streams not properly set for reactor''), r, h)
               else
                 (case vec_at (inputs r) 0 of
                    None \<Rightarrow> (Undefined IndexOutOfBounds, r, h)
                  | Some i0 \<Rightarrow>
                      let inputMass = getMassFlow (h i0) in
                      if isDoubleOutput r
                      then
                        let outputMass = ddiv inputMass (double_of_int 2) in
                        (case vec_at (outputs r) 0 of
                           None \<Rightarrow> (Undefined IndexOutOfBounds, r, h)
                         | Some o0 \<Rightarrow>
                             let h1 = h(o0 := setMassFlow outputMass (h o0)) in
                             (case vec_at (outputs r) 1 of
                                None \<Rightarrow> (Undefined IndexOutOfBounds, r, h1)
                              | Some o1 \<Rightarrow>
                                  (Returned, r, h1(o1 := setMassFlow outputMass (h1 o1)))))
                      else
                        (case vec_at (outputs r) 0 of
                           None \<Rightarrow> (Undefined IndexOutOfBounds, r, h)
                         | Some o0 \<Rightarrow> (Returned, r, h(o0 := setMassFlow inputMass (h o0)))))))"

definition getIsDoubleOutput :: "Reactor \<Rightarrow> bool" where
  "getIsDoubleOutput r = isDoubleOutput r"

fun Reactor_call :: "call \<Rightarrow> Reactor \<times> store \<Rightarrow> outcome \<times> Reactor \<times> store" where
  "Reactor_call (AddInput s) (r, h) = (case Device_addInput s r of (out, r') \<Rightarrow> (out, r', h))"
| "Reactor_call (AddOutput s) (r, h) = (case Device_addOutput s r of (out, r') \<Rightarrow> (out, r', h))"
| "Reactor_call UpdateOutputs (r, h) = Reactor_updateOutputs (r, h)"

fun Reactor_run :: "call list \<Rightarrow> Reactor \<times> store \<Rightarrow> Reactor \<times> store" where
  "Reactor_run [] st = st"
| "Reactor_run (c # cs) st = Reactor_run cs (snd (Reactor_call c st))"

section \<open>The error kinds of the specification\<close>

text \<open>
  The specification speaks of two kinds of error, not of messages: a capacity that is
  exceeded, with the collection concerned, and a violated precondition of
  \<^verbatim>\<open>updateOutputs\<close>. \<^term>\<open>spec_kind\<close> sorts the seven values the code throws into them.
\<close>

datatype resource = Input | Output

datatype error_kind = CapacityExceeded resource | PreconditionViolation

fun message :: "exn \<Rightarrow> string" where
  "message (CString s) = s"
| "message (StdString s) = s"

definition spec_kind :: "exn \<Rightarrow> error_kind option" where
  "spec_kind e =
     (let s = message e in
      if s = ''INPUT STREAM LIMIT!'' \<or> s = ''Too much inputs''
        then Some (CapacityExceeded Input)
      else if s = ''OUTPUT STREAM LIMIT!'' \<or> s = ''Too much outputs''
        then Some (CapacityExceeded Output)
      else if s = ''Should set outputs before update''
              \<or> s = ''Input stream not connected to reactor''
              \<or> s = ''Output streams not properly set for reactor''
        then Some PreconditionViolation
      else None)"

section \<open>Scenarios of the test functions\<close>

text \<open>
  The stores of the test functions: \<^verbatim>\<open>shouldSetOutputsCorrectlyWithOneOutput\<close> sets the
  mass-flows 10 and 5 on \<^verbatim>\<open>s1\<close> and \<^verbatim>\<open>s2\<close>; \<^verbatim>\<open>testReactorDoubleOutput\<close> sets 30 on
  its input. A mass-flow the test leaves unset is taken as 0.
\<close>

definition mixer_test_store :: store where
  "mixer_test_store =
     (\<lambda>r. \<lparr>mass_flow = double_of_int 0, name = ''s0''\<rparr>)
       (1 := \<lparr>mass_flow = double_of_int 10, name = ''s1''\<rparr>,
        2 := \<lparr>mass_flow = double_of_int 5, name = ''s2''\<rparr>,
        3 := \<lparr>mass_flow = double_of_int 0, name = ''s3''\<rparr>)"

definition mixer_test_device :: Mixer where
  "mixer_test_device =
     \<lparr>inputs = [1, 2], outputs = [3], inputAmount = Some 0, outputAmount = Some 0,
      inputs_count = 2\<rparr>"

definition reactor_test_store :: store where
  "reactor_test_store =
     (\<lambda>r. \<lparr>mass_flow = double_of_int 0, name = ''s0''\<rparr>)
       (1 := \<lparr>mass_flow = double_of_int 30, name = ''s1''\<rparr>,
        2 := \<lparr>mass_flow = double_of_int 0, name = ''s2''\<rparr>,
        3 := \<lparr>mass_flow = double_of_int 0, name = ''s3''\<rparr>)"

definition reactor_test_device :: Reactor where
  "reactor_test_device =
     \<lparr>inputs = [1], outputs = [2, 3], inputAmount = Some 1, outputAmount = Some 2,
      isDoubleOutput = True\<rparr>"

definition mixer_test_updated :: store where
  "mixer_test_updated = snd (snd (Mixer_updateOutputs (mixer_test_device, mixer_test_store)))"

definition reactor_test_updated :: store where
  "reactor_test_updated =
     snd (snd (Reactor_updateOutputs (reactor_test_device, reactor_test_store)))"


text \<open>
  In a state that construction and a sequence of calls has reached, a reactor has the
  capacities and the flag its constructor set, and a mixer the count it was given; neither
  holds more streams than the converted capacity that its \<^verbatim>\<open>addInput\<close> and
  \<^verbatim>\<open>addOutput\<close> test.
\<close>

definition Reactor_wf :: "bool \<Rightarrow> Reactor \<Rightarrow> bool" where
  "Reactor_wf b r \<longleftrightarrow>
     inputAmount r = Some 1 \<and> outputAmount r = Some (if b then 2 else 1)
     \<and> isDoubleOutput r = b
     \<and> length (inputs r) \<le> 1 \<and> length (outputs r) \<le> (if b then 2 else 1)"

definition Mixer_wf :: "int \<Rightarrow> Mixer \<Rightarrow> bool" where
  "Mixer_wf n m \<longleftrightarrow>
     inputs_count m = n \<and> length (inputs m) \<le> size_t_of_int n \<and> length (outputs m) \<le> 1"

section \<open>Facts about binary64 arithmetic\<close>

text \<open>
  Rounding changes nothing in a number that is a binary64 number already, it moves any
  number by at most half a unit of the spacing, and what it yields is a binary64 number.
\<close>

lemma bits_floorlog: "bits n = floorlog 2 n"
proof (induction n rule: bits.induct)
  case (1 n)
  show ?case
  proof (cases "n = 0")
    case True
    then show ?thesis by (simp add: bits.simps floorlog_eq_zero_iff)
  next
    case False
    then have "bits n = Suc (bits (n div 2))" by (simp add: bits.simps)
    also have "\<dots> = Suc (floorlog 2 (n div 2))" using 1 False by simp
    also have "\<dots> = floorlog 2 n" using False by (subst (2) compute_floorlog) simp
    finally show ?thesis .
  qed
qed

lemma bits_bounds: "0 < n \<Longrightarrow> 2 ^ (bits n - 1) \<le> n \<and> n < 2 ^ bits n"
  using floorlog_bounds [of n 2] by (simp add: bits_floorlog)

lemma bits_less: "n < 2 ^ bits n"
  by (cases "n = 0") (simp_all add: bits_bounds)

lemma bits_le: "n < 2 ^ w \<Longrightarrow> bits n \<le> w"
  by (simp add: bits_floorlog floorlog_leI)

lemma bits_mult_power: "0 < m \<Longrightarrow> bits (m * 2 ^ j) = bits m + j"
  by (simp add: bits_floorlog floorlog_power)

lemma round_half_even_of_int [simp]: "round_half_even (of_int n) = n"
  by (simp add: round_half_even_def)

lemma max_units_pos: "0 < max_units"
  by (simp add: max_units_def)

lemma bits_0 [simp]: "bits 0 = 0"
  by (simp add: bits.simps)

lemma round_half_even_0 [simp]: "round_half_even 0 = 0"
  using round_half_even_of_int [of 0] by simp

lemma round_units_zero [simp]: "round_units 0 = Finite 0"
  using max_units_pos by (simp add: round_units_def)

lemma round_units_exact:
  assumes "representable k"
  shows "round_units (of_int k) = Finite k"
proof (cases "k = 0")
  case True
  then show ?thesis by simp
next
  case False
  let ?j = "bits (nat \<bar>k\<bar>) - 53"
  from assms have small: "\<bar>k\<bar> < max_units" and dvd: "2 ^ ?j dvd k"
    by (simp_all add: representable_def)
  from dvd obtain n where n: "k = 2 ^ ?j * n" ..
  have fl: "nat \<lfloor>\<bar>of_int k :: rat\<bar>\<rfloor> = nat \<bar>k\<bar>"
    by (simp flip: of_int_abs)
  have "(of_int k :: rat) / 2 ^ ?j = of_int n"
    by (subst n) simp
  then have "round_half_even (of_int k / 2 ^ ?j) * 2 ^ ?j = n * 2 ^ ?j"
    by simp
  also have "\<dots> = k" by (subst (2) n) (simp add: mult.commute)
  finally have "round_half_even (of_int k / 2 ^ ?j) * 2 ^ ?j = k" .
  then show ?thesis
    using False small by (simp add: round_units_def fl Let_def del: of_int_abs)
qed

lemma representableI:
  assumes "\<bar>m\<bar> < 2 ^ 53" and "j \<le> 2045"
  shows "representable (m * 2 ^ j)"
proof (cases "m = 0")
  case True
  then show ?thesis by (simp add: representable_def max_units_pos)
next
  case False
  have "\<bar>m * 2 ^ j\<bar> = \<bar>m\<bar> * 2 ^ j" by (simp add: abs_mult)
  also have "\<dots> < 2 ^ 53 * 2 ^ j" using assms(1) by simp
  also have "\<dots> \<le> 2 ^ 53 * (2::int) ^ 2045"
    using assms(2) by (intro mult_left_mono power_increasing) simp_all
  also have "\<dots> = max_units" by (simp add: max_units_def flip: power_add)
  finally have lt: "\<bar>m * 2 ^ j\<bar> < max_units" .
  have "nat \<bar>m * 2 ^ j\<bar> = nat \<bar>m\<bar> * 2 ^ j"
    by (simp add: abs_mult nat_mult_distrib nat_power_eq)
  moreover have "0 < nat \<bar>m\<bar>" using False by simp
  ultimately have b: "bits (nat \<bar>m * 2 ^ j\<bar>) = bits (nat \<bar>m\<bar>) + j"
    by (simp add: bits_mult_power)
  have "nat \<bar>m\<bar> < 2 ^ 53" using assms(1) by (simp add: nat_less_iff)
  then have "bits (nat \<bar>m\<bar>) \<le> 53" by (rule bits_le)
  then have "bits (nat \<bar>m * 2 ^ j\<bar>) - 53 \<le> j" using b by simp
  then have "(2::int) ^ (bits (nat \<bar>m * 2 ^ j\<bar>) - 53) dvd 2 ^ j"
    by (rule le_imp_power_dvd)
  then have "2 ^ (bits (nat \<bar>m * 2 ^ j\<bar>) - 53) dvd m * 2 ^ j"
    by (rule dvd_mult)
  with lt show ?thesis by (simp add: representable_def)
qed

lemma one_units_pos: "0 < one_units"
  by (simp add: one_units_def)

lemma representable_0 [simp]: "representable 0"
  by (simp add: representable_def max_units_pos)

lemma representable_int_units: "\<bar>i\<bar> < 2 ^ 53 \<Longrightarrow> representable (i * one_units)"
  unfolding one_units_def by (rule representableI) simp_all

lemma double_of_int_exact: "\<bar>i\<bar> < 2 ^ 53 \<Longrightarrow> double_of_int i = Finite (i * one_units)"
  using round_units_exact [OF representable_int_units, of i]
  by (simp add: double_of_int_def)

lemma double_of_size_1: "double_of_size 1 = Finite one_units"
  using round_units_exact [OF representable_int_units, of 1]
  by (simp add: double_of_size_def)

lemma dadd_Finite_round:
  "dadd (Finite a) (Finite b) = round_units (of_int (a + b))"
  by (simp add: dadd_def)

lemma dadd_Finite:
  "representable (a + b) \<Longrightarrow> dadd (Finite a) (Finite b) = Finite (a + b)"
  using round_units_exact [of "a + b"] by (simp add: dadd_def)

lemma ddiv_one:
  assumes "is_double x"
  shows "ddiv x (Finite one_units) = x"
proof (cases x)
  case (Finite k)
  show ?thesis
  proof (cases "k = 0")
    case True
    with Finite show ?thesis
      using one_units_pos by (simp add: ddiv_def signed_zero_def)
  next
    case False
    have "(of_int k :: rat) * of_int one_units / of_int one_units = of_int k"
      using one_units_pos by simp
    with False Finite assms show ?thesis
      using one_units_pos by (simp add: ddiv_def round_units_exact)
  qed
qed (use one_units_pos in \<open>simp_all add: ddiv_def signed_zero_def signed_inf_def\<close>)


lemma round_half_even_cases:
  "round_half_even x = \<lfloor>x\<rfloor> \<or> round_half_even x = \<lfloor>x\<rfloor> + 1"
  by (simp add: round_half_even_def Let_def)

lemma round_half_even_near: "\<bar>of_int (round_half_even x) - x\<bar> \<le> 1 / 2"
proof -
  have "of_int \<lfloor>x\<rfloor> \<le> x" and "x < of_int \<lfloor>x\<rfloor> + 1" by linarith+
  then show ?thesis
    by (auto simp: round_half_even_def Let_def abs_le_iff)
qed

lemma round_half_even_bound:
  assumes "\<bar>x\<bar> \<le> of_int N"
  shows "\<bar>round_half_even x\<bar> \<le> N"
proof -
  from assms have up: "x \<le> of_int N" and lo: "- of_int N \<le> x" by (simp_all add: abs_le_iff)
  from lo have "of_int (- N) \<le> x" by simp
  then have l: "- N \<le> \<lfloor>x\<rfloor>" by (simp only: le_floor_iff)
  from up have u: "\<lfloor>x\<rfloor> \<le> N" by (simp add: floor_le_iff)
  show ?thesis
  proof (cases "\<lfloor>x\<rfloor> = N")
    case True
    then have "of_int N \<le> x" by (metis of_int_floor_le)
    with up have "x = of_int N" by simp
    then show ?thesis using l u by simp
  next
    case False
    with u have "\<lfloor>x\<rfloor> + 1 \<le> N" by simp
    with l round_half_even_cases [of x] show ?thesis by auto
  qed
qed

lemma representable_scaled:
  assumes n: "\<bar>n\<bar> \<le> 2 ^ 53" and lt: "\<bar>n * 2 ^ j\<bar> < max_units"
  shows "representable (n * 2 ^ j)"
proof (cases "n = 0")
  case True
  then show ?thesis by simp
next
  case False
  have "nat \<bar>n * 2 ^ j\<bar> = nat \<bar>n\<bar> * 2 ^ j"
    by (simp add: abs_mult nat_mult_distrib nat_power_eq)
  moreover have pos: "0 < nat \<bar>n\<bar>" using False by simp
  ultimately have b: "bits (nat \<bar>n * 2 ^ j\<bar>) = bits (nat \<bar>n\<bar>) + j"
    by (simp add: bits_mult_power)
  have dvd: "2 ^ (bits (nat \<bar>n * 2 ^ j\<bar>) - 53) dvd n * 2 ^ j"
  proof (cases "\<bar>n\<bar> = 2 ^ 53")
    case True
    then have "nat \<bar>n\<bar> = 1 * 2 ^ 53" by (simp add: nat_power_eq)
    then have "bits (nat \<bar>n\<bar>) = bits 1 + 53" by (simp only: bits_mult_power)
    also have "bits 1 = 1" by (simp add: bits.simps)
    finally have e: "bits (nat \<bar>n * 2 ^ j\<bar>) - 53 = Suc j" using b by simp
    from True have "n = 2 ^ 53 \<or> n = - (2 ^ 53)" by (auto simp: abs_if split: if_splits)
    then have "2 dvd n" by auto
    then have "2 * 2 ^ j dvd n * 2 ^ j" by (rule mult_dvd_mono) simp
    then show ?thesis by (simp add: e)
  next
    case False
    with n have "\<bar>n\<bar> < 2 ^ 53" by simp
    then have "nat \<bar>n\<bar> < 2 ^ 53" by (simp add: nat_less_iff)
    then have "bits (nat \<bar>n\<bar>) \<le> 53" by (rule bits_le)
    then have "bits (nat \<bar>n * 2 ^ j\<bar>) - 53 \<le> j" using b by simp
    then have "(2::int) ^ (bits (nat \<bar>n * 2 ^ j\<bar>) - 53) dvd 2 ^ j"
      by (rule le_imp_power_dvd)
    then show ?thesis by (rule dvd_mult)
  qed
  with lt show ?thesis by (simp add: representable_def)
qed

lemma round_units_is_double: "is_double (round_units x)"
proof -
  let ?F = "nat \<lfloor>\<bar>x\<bar>\<rfloor>"
  let ?j = "bits ?F - 53"
  let ?n = "round_half_even (x / 2 ^ ?j)"
  have "\<bar>x\<bar> < of_int (\<lfloor>\<bar>x\<bar>\<rfloor> + 1)" by linarith
  also have "\<lfloor>\<bar>x\<bar>\<rfloor> + 1 = int ?F + 1" by simp
  also have "int ?F + 1 \<le> 2 ^ bits ?F"
    using bits_less [of ?F] by (metis add.commute of_nat_Suc of_nat_less_iff of_nat_numeral of_nat_power zless_imp_add1_zle plus_1_eq_Suc)
  finally have xb: "\<bar>x\<bar> < 2 ^ bits ?F" by simp
  have "bits ?F \<le> ?j + 53" by simp
  then have "(2::rat) ^ bits ?F \<le> 2 ^ (?j + 53)"
    by (intro power_increasing) simp_all
  with xb have "\<bar>x\<bar> < 2 ^ ?j * 2 ^ 53" by (simp add: power_add)
  then have "\<bar>x / 2 ^ ?j\<bar> < 2 ^ 53"
    by (simp add: abs_divide pos_divide_less_eq mult.commute)
  then have "\<bar>x / 2 ^ ?j\<bar> \<le> of_int (2 ^ 53)" by simp
  then have nb: "\<bar>?n\<bar> \<le> 2 ^ 53" by (rule round_half_even_bound)
  show ?thesis
    using representable_scaled [OF nb, of ?j]
    by (simp add: round_units_def Let_def)
qed

lemma dadd_is_double: "is_double (dadd x y)"
  by (cases x; cases y) (simp_all add: dadd_def round_units_is_double)


lemma bits_eqI: "2 ^ w \<le> n \<Longrightarrow> n < 2 ^ Suc w \<Longrightarrow> bits n = Suc w"
proof -
  assume lo: "2 ^ w \<le> n" and hi: "n < 2 ^ Suc w"
  from hi have "bits n \<le> Suc w" by (rule bits_le)
  moreover from lo have "Suc w \<le> bits n"
    by (simp add: bits_floorlog floorlog_ge_SucI)
  ultimately show ?thesis by simp
qed

lemma round_units_pos:
  assumes "1 \<le> x"
  shows "round_units x = PosInf \<or> (\<exists>k. 0 < k \<and> round_units x = Finite k)"
proof -
  let ?F = "nat \<lfloor>\<bar>x\<bar>\<rfloor>"
  let ?j = "bits ?F - 53"
  let ?n = "round_half_even (x / 2 ^ ?j)"
  from assms have F1: "0 < ?F" by (simp add: le_floor_iff)
  from bits_bounds [OF F1] have "2 ^ (bits ?F - 1) \<le> ?F" by blast
  moreover have "(2::nat) ^ ?j \<le> 2 ^ (bits ?F - 1)"
    by (intro power_increasing) simp_all
  ultimately have "2 ^ ?j \<le> ?F" by (rule order_trans [rotated])
  then have "int (2 ^ ?j) \<le> int ?F" by (simp only: of_nat_le_iff)
  also have "int ?F = \<lfloor>x\<rfloor>" using assms by simp
  finally have "of_int (2 ^ ?j) \<le> x" by (simp add: le_floor_iff)
  then have "1 \<le> x / 2 ^ ?j" by (simp add: pos_le_divide_eq)
  moreover define f where "f = \<lfloor>x / 2 ^ ?j\<rfloor>"
  ultimately have "1 \<le> f" by (simp add: le_floor_iff)
  moreover have "?n = f \<or> ?n = f + 1"
    unfolding f_def by (rule round_half_even_cases)
  ultimately have "1 \<le> ?n" by auto
  then have "0 < ?n * 2 ^ ?j" by simp
  then show ?thesis
    using assms by (auto simp: round_units_def Let_def)
qed

lemma double_of_size_pos:
  assumes "0 < n"
  shows "double_of_size n = PosInf \<or> (\<exists>k. 0 < k \<and> double_of_size n = Finite k)"
proof -
  have "1 * 1 \<le> int n * one_units"
    using assms one_units_pos by (intro mult_mono) simp_all
  then have "1 \<le> int n * one_units" by simp
  then have "(1::rat) \<le> of_int (int n * one_units)" by (simp only: of_int_1_le_iff)
  then have "(1::rat) \<le> of_nat n * of_int one_units" by simp
  then show ?thesis unfolding double_of_size_def by (rule round_units_pos)
qed

lemma ddiv_zero_size:
  assumes "0 < n"
  shows "ddiv (Finite 0) (double_of_size n) = Finite 0"
  using double_of_size_pos [OF assms]
  by (auto simp: ddiv_def signed_zero_def)

lemma representable_half:
  assumes "representable k" and "even k"
  shows "representable (k div 2)"
proof (cases "k = 0")
  case True
  then show ?thesis by simp
next
  case False
  let ?e = "bits (nat \<bar>k\<bar>) - 53"
  from assms have lt: "\<bar>k\<bar> < max_units" and dvd: "2 ^ ?e dvd k"
    by (simp_all add: representable_def)
  have "\<bar>k div 2\<bar> \<le> \<bar>k\<bar>" using assms(2) by (auto elim!: evenE)
  with lt have lt': "\<bar>k div 2\<bar> < max_units" by simp
  have h: "nat \<bar>k div 2\<bar> = nat \<bar>k\<bar> div 2"
    using assms(2) by (auto elim!: evenE simp: abs_mult nat_mult_distrib)
  have "nat \<bar>k\<bar> \<noteq> 0" using False by simp
  then have "bits (nat \<bar>k\<bar>) = Suc (bits (nat \<bar>k\<bar> div 2))" by (subst bits.simps) simp
  then have e': "bits (nat \<bar>k div 2\<bar>) - 53 = ?e - 1" by (simp add: h)
  have "2 ^ (?e - 1) dvd k div 2"
  proof (cases "?e = 0")
    case True
    then show ?thesis by simp
  next
    case False
    then obtain d where d: "?e = Suc d" by (cases ?e) simp_all
    from dvd obtain c where "k = 2 ^ ?e * c" ..
    then have "k = 2 * (2 ^ d * c)" by (simp add: d)
    then have "k div 2 = 2 ^ d * c" by simp
    then show ?thesis by (simp add: d)
  qed
  with lt' e' show ?thesis by (simp add: representable_def)
qed

lemma double_of_int_2: "double_of_int 2 = Finite (2 * one_units)"
  by (rule double_of_int_exact) simp

lemma ddiv_two:
  assumes "k \<noteq> 0"
  shows "ddiv (Finite k) (double_of_int 2) = round_units (of_int k / 2)"
proof -
  have "(of_int k :: rat) * of_int one_units / of_int (2 * one_units) = of_int k / 2"
    using one_units_pos by simp
  then show ?thesis
    using assms one_units_pos by (simp add: ddiv_def double_of_int_2)
qed

lemma ddiv_two_even:
  assumes "representable k" and "even k"
  shows "ddiv (Finite k) (double_of_int 2) = Finite (k div 2)"
proof (cases "k = 0")
  case True
  then show ?thesis
    using one_units_pos by (simp add: ddiv_def double_of_int_2 signed_zero_def)
next
  case False
  from assms(2) have "(of_int k :: rat) / 2 = of_int (k div 2)"
    by (auto elim!: evenE)
  then show ?thesis
    using False round_units_exact [OF representable_half [OF assms]]
    by (simp add: ddiv_two)
qed



lemma round_half_even_tie:
  "round_half_even (of_int m + 1 / 2) = (if even m then m else m + 1)"
proof -
  have "\<lfloor>of_int m + 1 / 2 :: rat\<rfloor> = m" by (simp add: floor_eq_iff)
  then show ?thesis by (simp add: round_half_even_def Let_def)
qed

lemma dadd_tie_to_even:
  "dadd (double_of_int (2 ^ 53)) (double_of_int 1) = double_of_int (2 ^ 53)"
proof -
  let ?K = "(2 ^ 53 + 1) * one_units :: int"
  have r: "representable (2 ^ 53 * one_units)"
    unfolding one_units_def by (rule representable_scaled) (simp_all add: max_units_def)
  have big: "double_of_int (2 ^ 53) = Finite (2 ^ 53 * one_units)"
    using round_units_exact [OF r] by (simp add: double_of_int_def)
  have one: "double_of_int 1 = Finite one_units"
    using double_of_int_exact [of 1] by simp
  have "?K = int ((2 ^ 53 + 1) * 2 ^ 1074)" by (simp add: one_units_def)
  then have "nat \<lfloor>\<bar>of_int ?K :: rat\<bar>\<rfloor> = nat \<lfloor>\<bar>of_int (int ((2 ^ 53 + 1) * 2 ^ 1074)) :: rat\<bar>\<rfloor>"
    by (simp only:)
  also have "\<dots> = (2 ^ 53 + 1) * 2 ^ 1074"
    by (simp only: of_int_of_nat_eq abs_of_nat floor_of_nat nat_int)
  finally have F: "nat \<lfloor>\<bar>of_int ?K :: rat\<bar>\<rfloor> = (2 ^ 53 + 1) * 2 ^ 1074" .
  have "bits (2 ^ 53 + 1) = Suc 53" by (rule bits_eqI) simp_all
  then have b: "bits ((2 ^ 53 + 1) * 2 ^ 1074) = 54 + 1074"
    by (simp only: bits_mult_power)
  have q: "(of_int ?K :: rat) / 2 ^ 1075 = of_int (2 ^ 52) + 1 / 2"
    by (simp add: one_units_def)
  have n: "round_half_even (of_int (2 ^ 52) + 1 / 2) = 2 ^ 52"
    by (simp only: round_half_even_tie) simp
  have j: "54 + 1074 - 53 = (1075::nat)" by simp
  have small: "\<not> max_units \<le> \<bar>2 ^ 52 * 2 ^ 1075 :: int\<bar>"
    by (simp add: max_units_def)
  have nz: "(2 ^ 52 * 2 ^ 1075 :: int) \<noteq> 0" by simp
  have R: "round_units (of_int ?K) = Finite (2 ^ 52 * 2 ^ 1075)"
    unfolding round_units_def F b j Let_def q n
    using small nz by (simp only: if_False)
  have K: "2 ^ 53 * one_units + one_units = ?K" by (simp add: algebra_simps)
  have E: "(2 ^ 52 * 2 ^ 1075 :: int) = 2 ^ 53 * one_units"
    by (simp add: one_units_def)
  have "dadd (double_of_int (2 ^ 53)) (double_of_int 1)
      = dadd (Finite (2 ^ 53 * one_units)) (Finite one_units)"
    by (simp only: big one)
  also have "\<dots> = round_units (of_int (2 ^ 53 * one_units + one_units))"
    by (rule dadd_Finite_round)
  also have "\<dots> = Finite (2 ^ 53 * one_units)"
    by (simp only: K R E)
  also have "\<dots> = double_of_int (2 ^ 53)"
    by (simp only: big)
  finally show ?thesis .
qed

text \<open>
  The integers that \<^term>\<open>representable\<close> admits are those with a significand of at most
  53 digits and an exponent in the range of the format.
\<close>

lemma representable_iff:
  "representable k \<longleftrightarrow> (\<exists>m j. k = m * 2 ^ j \<and> \<bar>m\<bar> < 2 ^ 53 \<and> j \<le> 2045)"
proof
  assume "\<exists>m j. k = m * 2 ^ j \<and> \<bar>m\<bar> < 2 ^ 53 \<and> j \<le> 2045"
  then show "representable k" using representableI by blast
next
  assume r: "representable k"
  let ?b = "bits (nat \<bar>k\<bar>)"
  let ?e = "?b - 53"
  from r have lt: "\<bar>k\<bar> < max_units" and dvd: "2 ^ ?e dvd k"
    by (simp_all add: representable_def)
  from dvd obtain c where c: "k = 2 ^ ?e * c" ..
  have "nat \<bar>k\<bar> < 2 ^ 2098" using lt by (simp add: max_units_def nat_less_iff)
  then have "?b \<le> 2098" by (rule bits_le)
  then have e: "?e \<le> 2045" by simp
  have "nat \<bar>k\<bar> < 2 ^ ?b" by (rule bits_less)
  then have "\<bar>k\<bar> < 2 ^ ?b" by (simp add: nat_less_iff)
  also have "(2::int) ^ ?b \<le> 2 ^ (?e + 53)"
    by (intro power_increasing) simp_all
  finally have "\<bar>k\<bar> < 2 ^ ?e * 2 ^ 53" by (simp only: power_add)
  moreover have "\<bar>k\<bar> = 2 ^ ?e * \<bar>c\<bar>" by (subst c) (simp add: abs_mult)
  ultimately have "2 ^ ?e * \<bar>c\<bar> < 2 ^ ?e * 2 ^ 53" by (simp only:)
  then have "\<bar>c\<bar> < 2 ^ 53" by (rule mult_left_less_imp_less) simp
  with c e show "\<exists>m j. k = m * 2 ^ j \<and> \<bar>m\<bar> < 2 ^ 53 \<and> j \<le> 2045"
    by (intro exI [of _ c] exI [of _ ?e]) (simp add: mult.commute)
qed

text \<open>
  The largest finite number added to itself overflows to the infinity.
\<close>

lemma dadd_overflow:
  "representable ((2 ^ 53 - 1) * 2 ^ 2045)
   \<and> dadd (Finite ((2 ^ 53 - 1) * 2 ^ 2045)) (Finite ((2 ^ 53 - 1) * 2 ^ 2045)) = PosInf"
proof -
  let ?K = "(2 ^ 53 - 1) * 2 ^ 2046 :: int"
  have r: "representable ((2 ^ 53 - 1) * 2 ^ 2045)"
    by (rule representableI) simp_all
  have "?K = int ((2 ^ 53 - 1) * 2 ^ 2046)" by (simp add: of_nat_diff)
  then have "nat \<lfloor>\<bar>of_int ?K :: rat\<bar>\<rfloor>
      = nat \<lfloor>\<bar>of_int (int ((2 ^ 53 - 1) * 2 ^ 2046)) :: rat\<bar>\<rfloor>"
    by (simp only:)
  also have "\<dots> = (2 ^ 53 - 1) * 2 ^ 2046"
    by (simp only: of_int_of_nat_eq abs_of_nat floor_of_nat nat_int)
  finally have F: "nat \<lfloor>\<bar>of_int ?K :: rat\<bar>\<rfloor> = (2 ^ 53 - 1) * 2 ^ 2046" .
  have "bits (2 ^ 53 - 1) = Suc 52" by (rule bits_eqI) simp_all
  moreover have "0 < (2 ^ 53 - 1 :: nat)" by simp
  then have "bits ((2 ^ 53 - 1) * 2 ^ 2046) = bits (2 ^ 53 - 1) + 2046"
    by (rule bits_mult_power)
  ultimately have b: "bits ((2 ^ 53 - 1) * 2 ^ 2046) = 53 + 2046"
    by simp
  have j: "53 + 2046 - 53 = (2046::nat)" by simp
  have q: "(of_int ?K :: rat) / 2 ^ 2046 = of_int (2 ^ 53 - 1)" by simp
  have big: "max_units \<le> \<bar>(2 ^ 53 - 1) * 2 ^ 2046 :: int\<bar>"
    by (simp add: max_units_def)
  have pos: "\<not> (of_int ?K :: rat) < 0" by simp
  have R: "round_units (of_int ?K) = PosInf"
    unfolding round_units_def F b j Let_def q round_half_even_of_int
    using big pos by (simp only: if_True if_False)
  have "(2 ^ 53 - 1) * 2 ^ 2045 + (2 ^ 53 - 1) * 2 ^ 2045 = ?K" by simp
  then have "dadd (Finite ((2 ^ 53 - 1) * 2 ^ 2045)) (Finite ((2 ^ 53 - 1) * 2 ^ 2045))
      = round_units (of_int ?K)"
    by (simp only: dadd_Finite_round)
  with r R show ?thesis by (simp only:)
qed

text \<open>
  The sum a loop computes is a binary64 number whatever the store holds, and it is the
  exact sum as long as every partial sum is a binary64 number.
\<close>

lemma double_of_int_0: "double_of_int 0 = Finite 0"
  using double_of_int_exact [of 0] by simp

lemma foldl_dadd_is_double: "is_double a \<Longrightarrow> is_double (foldl dadd a xs)"
  by (induction xs arbitrary: a) (simp_all add: dadd_is_double)

lemma double_sum_is_double: "is_double (double_sum xs)"
  by (simp add: double_sum_def double_of_int_0 foldl_dadd_is_double)

lemma foldl_dadd_exact:
  assumes "\<forall>n \<le> length ks. representable (a + sum_list (take n ks))"
  shows "foldl dadd (Finite a) (map Finite ks) = Finite (a + sum_list ks)"
  using assms
proof (induction ks arbitrary: a)
  case Nil
  show ?case by simp
next
  case (Cons k ks)
  have "Suc 0 \<le> length (k # ks)" by simp
  with Cons.prems have "representable (a + sum_list (take (Suc 0) (k # ks)))"
    by blast
  then have "representable (a + k)" by simp
  then have step: "dadd (Finite a) (Finite k) = Finite (a + k)"
    by (rule dadd_Finite)
  have "\<forall>n \<le> length ks. representable (a + k + sum_list (take n ks))"
  proof (intro allI impI)
    fix n assume "n \<le> length ks"
    then have "Suc n \<le> length (k # ks)" by simp
    with Cons.prems have "representable (a + sum_list (take (Suc n) (k # ks)))" by blast
    then show "representable (a + k + sum_list (take n ks))" by (simp add: add.assoc)
  qed
  from Cons.IH [OF this] show ?case by (simp add: step add.assoc)
qed

lemma double_sum_exact:
  assumes "\<forall>n \<le> length ks. representable (sum_list (take n ks))"
  shows "double_sum (map Finite ks) = Finite (sum_list ks)"
  using foldl_dadd_exact [of ks 0] assms by (simp add: double_sum_def double_of_int_0)

text \<open>
  The arithmetic of the tests is exact: integers below \<open>2^53\<close> in magnitude are binary64
  numbers, and so are their sums and halves.
\<close>

lemma dadd_double_of_int:
  assumes "\<bar>a\<bar> < 2 ^ 53" and "\<bar>b\<bar> < 2 ^ 53" and "\<bar>a + b\<bar> < 2 ^ 53"
  shows "dadd (double_of_int a) (double_of_int b) = double_of_int (a + b)"
proof -
  have e: "a * one_units + b * one_units = (a + b) * one_units"
    by (simp add: algebra_simps)
  have "representable (a * one_units + b * one_units)"
    unfolding e using assms(3) by (rule representable_int_units)
  then have "dadd (Finite (a * one_units)) (Finite (b * one_units))
      = Finite (a * one_units + b * one_units)"
    by (rule dadd_Finite)
  then show ?thesis
    by (simp only: double_of_int_exact [OF assms(1)] double_of_int_exact [OF assms(2)]
        double_of_int_exact [OF assms(3)] e)
qed

lemma ddiv_double_of_size_1: "is_double x \<Longrightarrow> ddiv x (double_of_size 1) = x"
  by (simp only: double_of_size_1 ddiv_one)

lemma ddiv_double_of_int_2:
  assumes "\<bar>2 * a\<bar> < 2 ^ 53"
  shows "ddiv (double_of_int (2 * a)) (double_of_int 2) = double_of_int a"
proof -
  have r: "representable (2 * a * one_units)" using assms by (rule representable_int_units)
  have "\<bar>a\<bar> < 2 ^ 53" using assms by simp
  then have a: "double_of_int a = Finite (a * one_units)" by (rule double_of_int_exact)
  have "ddiv (Finite (2 * a * one_units)) (double_of_int 2) = Finite (2 * a * one_units div 2)"
    using r by (rule ddiv_two_even) simp
  then show ?thesis by (simp add: double_of_int_exact [OF assms] a mult.assoc)
qed

lemma is_double_double_of_int: "is_double (double_of_int i)"
  by (simp add: double_of_int_def round_units_is_double)




section \<open>The loops of the mixer\<close>

lemma fold_dadd_foldl:
  "fold (\<lambda>r acc. dadd acc (f r)) xs a = foldl dadd a (map f xs)"
  by (induction xs arbitrary: a) simp_all

lemma fold_assign_other:
  "r \<notin> set xs \<Longrightarrow> fold (\<lambda>r h'. h'(r := setMassFlow v (h' r))) xs h r = h r"
  by (induction xs arbitrary: h) simp_all

lemma fold_assign_name:
  "name (fold (\<lambda>r h'. h'(r := setMassFlow v (h' r))) xs h r) = name (h r)"
  by (induction xs arbitrary: h) (simp_all add: setMassFlow_def)

lemma fold_assign_member:
  "r \<in> set xs \<Longrightarrow> mass_flow (fold (\<lambda>r h'. h'(r := setMassFlow v (h' r))) xs h r) = v"
proof (induction xs arbitrary: h)
  case Nil
  then show ?case by simp
next
  case (Cons x xs)
  show ?case
  proof (cases "r \<in> set xs")
    case True
    then show ?thesis using Cons.IH by simp
  next
    case False
    with Cons.prems have rx: "r = x" by simp
    let ?h1 = "h(x := setMassFlow v (h x))"
    let ?F = "\<lambda>r h'. h'(r := setMassFlow v (h' r))"
    have "fold ?F xs ?h1 x = ?h1 x"
      using False rx by (intro fold_assign_other) simp
    moreover have "mass_flow (?h1 x) = v"
      by (simp add: setMassFlow_def)
    moreover have "fold ?F (x # xs) h r = fold ?F xs ?h1 x"
      unfolding rx by (simp only: fold_simps comp_def)
    ultimately show ?thesis by (simp only:)
  qed
qed

lemma Mixer_updateOutputs_empty:
  "outputs m = [] \<Longrightarrow>
   Mixer_updateOutputs (m, h) = (Thrown (StdString ''Should set outputs before update''), m, h)"
  by (simp add: Mixer_updateOutputs_def)

lemma Mixer_updateOutputs_nonempty:
  "outputs m \<noteq> [] \<Longrightarrow>
   Mixer_updateOutputs (m, h) =
     (Returned, m,
      fold (\<lambda>r h'. h'(r := setMassFlow
              (ddiv (double_sum (map (\<lambda>i. getMassFlow (h i)) (inputs m)))
                 (double_of_size (length (outputs m))))
              (h' r)))
        (outputs m) h)"
  by (simp add: Mixer_updateOutputs_def divide_by_size_def fold_dadd_foldl double_sum_def)

lemma Mixer_test_run:
  "Mixer_run [AddInput 1, AddInput 2, AddOutput 3] (Mixer_init 2, h) = (mixer_test_device, h)"
  by (simp add: Mixer_init_def Mixer_addInput_def Mixer_addOutput_def size_t_of_int_def
      MIXER_OUTPUTS_def mixer_test_device_def)

lemma mixer_test_sum:
  "double_sum (map (\<lambda>i. getMassFlow (mixer_test_store i)) (inputs mixer_test_device))
     = double_of_int 15"
proof -
  have "dadd (double_of_int 0) (double_of_int 10) = double_of_int (0 + 10)"
    by (rule dadd_double_of_int) simp_all
  moreover have "dadd (double_of_int 10) (double_of_int 5) = double_of_int (10 + 5)"
    by (rule dadd_double_of_int) simp_all
  ultimately show ?thesis
    by (simp add: double_sum_def mixer_test_device_def mixer_test_store_def getMassFlow_def)
qed

lemma mixer_test_update:
  "Mixer_updateOutputs (mixer_test_device, mixer_test_store)
     = (Returned, mixer_test_device,
        mixer_test_store (3 := setMassFlow (double_of_int 15) (mixer_test_store 3)))"
proof -
  have ne: "outputs mixer_test_device \<noteq> []"
    by (simp add: mixer_test_device_def)
  have "ddiv (double_of_int 15) (double_of_size 1) = double_of_int 15"
    using is_double_double_of_int by (rule ddiv_double_of_size_1)
  then have q: "ddiv (double_of_int 15) (double_of_size (length (outputs mixer_test_device)))
      = double_of_int 15"
    by (simp add: mixer_test_device_def)
  show ?thesis
    unfolding Mixer_updateOutputs_nonempty [OF ne] mixer_test_sum q
    by (simp add: mixer_test_device_def)
qed

section \<open>What the mixer computes\<close>

text \<open>
  C1. For a mixer with at least one output attached, \<^verbatim>\<open>updateOutputs\<close> returns and
  leaves in every attached output the sum of the mass-flows of the attached inputs divided
  by the number of attached outputs (not of inputs). The sum and the quotient are those
  of \<^verbatim>\<open>double\<close> arithmetic: the sum is accumulated from 0 over the inputs in their
  order, the number of outputs is converted to \<^verbatim>\<open>double\<close>. With exactly one output
  attached the output carries the sum itself, since dividing a \<^verbatim>\<open>double\<close> by 1 is
  exact. The witness is the test with two inputs of 10 and 5 and one output, which ends
  with 15 in the output.
\<close>

theorem Mixer_updateOutputs_mean:
  assumes "outputs m \<noteq> []"
  shows "fst (Mixer_updateOutputs (m, h)) = Returned
    \<and> (\<forall>r \<in> set (outputs m).
          getMassFlow (snd (snd (Mixer_updateOutputs (m, h))) r)
          = ddiv (double_sum (map (\<lambda>i. getMassFlow (h i)) (inputs m)))
              (double_of_size (length (outputs m))))
    \<and> (length (outputs m) = 1 \<longrightarrow>
          getMassFlow (snd (snd (Mixer_updateOutputs (m, h))) (outputs m ! 0))
          = double_sum (map (\<lambda>i. getMassFlow (h i)) (inputs m)))"
proof -
  let ?s = "double_sum (map (\<lambda>i. getMassFlow (h i)) (inputs m))"
  let ?v = "ddiv ?s (double_of_size (length (outputs m)))"
  have all: "\<forall>r \<in> set (outputs m).
          getMassFlow (snd (snd (Mixer_updateOutputs (m, h))) r) = ?v"
    using assms by (simp add: Mixer_updateOutputs_nonempty getMassFlow_def fold_assign_member)
  have "outputs m ! 0 \<in> set (outputs m)" using assms by simp
  with all have "getMassFlow (snd (snd (Mixer_updateOutputs (m, h))) (outputs m ! 0)) = ?v"
    by blast
  moreover have "ddiv ?s (double_of_size 1) = ?s"
    using double_sum_is_double by (rule ddiv_double_of_size_1)
  ultimately have one: "length (outputs m) = 1 \<longrightarrow>
          getMassFlow (snd (snd (Mixer_updateOutputs (m, h))) (outputs m ! 0)) = ?s"
    by (simp del: One_nat_def)
  have "fst (Mixer_updateOutputs (m, h)) = Returned"
    using assms by (simp add: Mixer_updateOutputs_nonempty)
  with all one show ?thesis by blast
qed

theorem Mixer_updateOutputs_mean_witness:
  "Mixer_run [AddInput 1, AddInput 2, AddOutput 3] (Mixer_init 2, mixer_test_store)
     = (mixer_test_device, mixer_test_store)
   \<and> outputs mixer_test_device \<noteq> []
   \<and> length (outputs mixer_test_device) = 1
   \<and> getMassFlow (mixer_test_store 1) = double_of_int 10
   \<and> getMassFlow (mixer_test_store 2) = double_of_int 5
   \<and> fst (Mixer_updateOutputs (mixer_test_device, mixer_test_store)) = Returned
   \<and> getMassFlow (snd (snd (Mixer_updateOutputs (mixer_test_device, mixer_test_store))) 3)
       = double_of_int 15"
proof -
  have ne: "outputs mixer_test_device \<noteq> []"
    and one: "length (outputs mixer_test_device) = 1"
    and o0: "outputs mixer_test_device ! 0 = 3"
    by (simp_all add: mixer_test_device_def)
  have ins: "getMassFlow (mixer_test_store 1) = double_of_int 10"
    "getMassFlow (mixer_test_store 2) = double_of_int 5"
    by (simp_all add: mixer_test_store_def getMassFlow_def)
  from Mixer_updateOutputs_mean [OF ne, of mixer_test_store] one o0
  have "fst (Mixer_updateOutputs (mixer_test_device, mixer_test_store)) = Returned
    \<and> getMassFlow (snd (snd (Mixer_updateOutputs (mixer_test_device, mixer_test_store))) 3)
       = double_of_int 15"
    by (simp only: mixer_test_sum)
  with ne one ins Mixer_test_run show ?thesis by simp
qed

text \<open>
  The sum is not the exact one in general: adding 1 to \<open>2^53\<close> gives \<open>2^53\<close> back,
  the exact sum lying halfway between two \<^verbatim>\<open>double\<close> values. It is the exact sum
  whenever every partial sum is a \<^verbatim>\<open>double\<close> value.
\<close>

lemma double_sum_rounds:
  "double_sum [double_of_int (2 ^ 53), double_of_int 1] = double_of_int (2 ^ 53)"
proof -
  have r: "representable (2 ^ 53 * one_units)"
    unfolding one_units_def by (rule representable_scaled) (simp_all add: max_units_def)
  have big: "double_of_int (2 ^ 53) = Finite (2 ^ 53 * one_units)"
    using round_units_exact [OF r] by (simp add: double_of_int_def)
  have "representable (0 + 2 ^ 53 * one_units)"
    using r by (simp only: add_0)
  then have "dadd (Finite 0) (Finite (2 ^ 53 * one_units)) = Finite (0 + 2 ^ 53 * one_units)"
    by (rule dadd_Finite)
  then have "dadd (double_of_int 0) (double_of_int (2 ^ 53)) = double_of_int (2 ^ 53)"
    by (simp only: double_of_int_0 big add_0)
  then show ?thesis
    by (simp only: double_sum_def foldl.simps dadd_tie_to_even)
qed

text \<open>
  C6. For a mixer with at least one output attached and no input attached,
  \<^verbatim>\<open>updateOutputs\<close> returns without an error and leaves the mass-flow 0 in every
  attached output: the sum of no inputs is 0, and 0 divided by the number of outputs is 0
  in \<^verbatim>\<open>double\<close> arithmetic too.
\<close>

theorem Mixer_updateOutputs_no_inputs:
  assumes "outputs m \<noteq> []" and "inputs m = []"
  shows "fst (Mixer_updateOutputs (m, h)) = Returned
    \<and> (\<forall>r \<in> set (outputs m).
          getMassFlow (snd (snd (Mixer_updateOutputs (m, h))) r) = double_of_int 0)"
proof -
  have "0 < length (outputs m)" using assms(1) by simp
  then have "ddiv (Finite 0) (double_of_size (length (outputs m))) = Finite 0"
    by (rule ddiv_zero_size)
  then show ?thesis
    using assms
    by (simp add: Mixer_updateOutputs_nonempty getMassFlow_def fold_assign_member
        double_sum_def double_of_int_0)
qed

theorem Mixer_updateOutputs_no_inputs_witness:
  "Mixer_run [AddOutput 2] (Mixer_init 2, mixer_test_store)
     = (mixer_test_device\<lparr>inputs := [], outputs := [2]\<rparr>, mixer_test_store)
   \<and> getMassFlow (mixer_test_store 2) = double_of_int 5
   \<and> fst (Mixer_updateOutputs
        (mixer_test_device\<lparr>inputs := [], outputs := [2]\<rparr>, mixer_test_store)) = Returned
   \<and> getMassFlow (snd (snd (Mixer_updateOutputs
        (mixer_test_device\<lparr>inputs := [], outputs := [2]\<rparr>, mixer_test_store))) 2)
       = double_of_int 0"
proof -
  let ?m = "mixer_test_device\<lparr>inputs := [], outputs := [2]\<rparr>"
  have run: "Mixer_run [AddOutput 2] (Mixer_init 2, mixer_test_store) = (?m, mixer_test_store)"
    by (simp add: Mixer_init_def Mixer_addOutput_def size_t_of_int_def MIXER_OUTPUTS_def
        mixer_test_device_def)
  have before: "getMassFlow (mixer_test_store 2) = double_of_int 5"
    by (simp add: mixer_test_store_def getMassFlow_def)
  have ne: "outputs ?m \<noteq> []" and emp: "inputs ?m = []"
    by simp_all
  from Mixer_updateOutputs_no_inputs [OF ne emp, of mixer_test_store] run before
  show ?thesis by simp
qed

section \<open>Reactors built by the constructor\<close>

lemma size_t_of_int_small [simp]:
  "size_t_of_int 1 = 1" "size_t_of_int 2 = 2"
  by (simp_all add: size_t_of_int_def)

lemma Reactor_wf_init: "Reactor_wf b (Reactor_init b)"
  by (simp add: Reactor_wf_def Reactor_init_def)

lemma Reactor_updateOutputs_device:
  "fst (snd (Reactor_updateOutputs (r, h))) = r"
  by (simp add: Reactor_updateOutputs_def Let_def split: option.splits)

lemma Reactor_wf_call:
  assumes "Reactor_wf b (fst st)"
  shows "Reactor_wf b (fst (snd (Reactor_call c st)))"
proof (cases st)
  case (Pair r h)
  with assms have wf: "Reactor_wf b r" by simp
  show ?thesis
  proof (cases c)
    case (AddInput s)
    with Pair wf show ?thesis
      by (auto simp: Reactor_wf_def Device_addInput_def)
  next
    case (AddOutput s)
    with Pair wf show ?thesis
      by (auto simp: Reactor_wf_def Device_addOutput_def)
  next
    case UpdateOutputs
    with Pair wf show ?thesis
      by (simp add: Reactor_updateOutputs_device)
  qed
qed

lemma Reactor_wf_run:
  "Reactor_wf b (fst st) \<Longrightarrow> Reactor_wf b (fst (Reactor_run cs st))"
  by (induction cs arbitrary: st) (simp_all add: Reactor_wf_call)

lemma Reactor_wf_reachable:
  "Reactor_run cs (Reactor_init b, h0) = (r, h) \<Longrightarrow> Reactor_wf b r"
  using Reactor_wf_run [of b "(Reactor_init b, h0)" cs] by (simp add: Reactor_wf_init)

lemma Reactor_updateOutputs_no_input:
  "inputs r = [] \<Longrightarrow>
   Reactor_updateOutputs (r, h)
     = (Thrown (StdString ''Input stream not connected to reactor''), r, h)"
  by (simp add: Reactor_updateOutputs_def)

lemma Reactor_updateOutputs_wrong_outputs:
  "Reactor_wf b r \<Longrightarrow> inputs r \<noteq> [] \<Longrightarrow> length (outputs r) \<noteq> (if b then 2 else 1) \<Longrightarrow>
   Reactor_updateOutputs (r, h)
     = (Thrown (StdString ''Output streams not properly set for reactor''), r, h)"
  by (auto simp: Reactor_updateOutputs_def Reactor_wf_def)

lemma Reactor_updateOutputs_single:
  "Reactor_wf False r \<Longrightarrow> inputs r \<noteq> [] \<Longrightarrow> length (outputs r) = 1 \<Longrightarrow>
   Reactor_updateOutputs (r, h)
     = (Returned, r,
        h(outputs r ! 0 := setMassFlow (getMassFlow (h (inputs r ! 0))) (h (outputs r ! 0))))"
  by (simp add: Reactor_updateOutputs_def Reactor_wf_def vec_at_def)

lemma Reactor_updateOutputs_double:
  "Reactor_wf True r \<Longrightarrow> inputs r \<noteq> [] \<Longrightarrow> length (outputs r) = 2 \<Longrightarrow>
   Reactor_updateOutputs (r, h)
     = (Returned, r,
        (h(outputs r ! 0 :=
             setMassFlow (ddiv (getMassFlow (h (inputs r ! 0))) (double_of_int 2))
               (h (outputs r ! 0))))
         (outputs r ! 1 :=
            setMassFlow (ddiv (getMassFlow (h (inputs r ! 0))) (double_of_int 2))
              ((h(outputs r ! 0 :=
                  setMassFlow (ddiv (getMassFlow (h (inputs r ! 0))) (double_of_int 2))
                    (h (outputs r ! 0))))
                 (outputs r ! 1))))"
  by (simp add: Reactor_updateOutputs_def Reactor_wf_def vec_at_def Let_def)

section \<open>What the reactor computes\<close>


lemma Reactor_test_run:
  "Reactor_run [AddInput 1, AddOutput 2, AddOutput 3] (Reactor_init True, h)
     = (reactor_test_device, h)"
  by (simp add: Reactor_init_def Device_addInput_def Device_addOutput_def
      reactor_test_device_def)

lemma reactor_test_half: "ddiv (double_of_int 30) (double_of_int 2) = double_of_int 15"
  using ddiv_double_of_int_2 [of 15] by simp



lemma reactor_test_update:
  "Reactor_updateOutputs (reactor_test_device, reactor_test_store)
     = (Returned, reactor_test_device,
        reactor_test_store
          (2 := setMassFlow (double_of_int 15) (reactor_test_store 2),
           3 := setMassFlow (double_of_int 15) (reactor_test_store 3)))"
proof -
  have wf: "Reactor_wf True reactor_test_device"
    by (simp add: Reactor_wf_def reactor_test_device_def)
  have ne: "inputs reactor_test_device \<noteq> []" and len: "length (outputs reactor_test_device) = 2"
    by (simp_all add: reactor_test_device_def)
  have v: "getMassFlow (reactor_test_store (inputs reactor_test_device ! 0)) = double_of_int 30"
    by (simp add: reactor_test_store_def reactor_test_device_def getMassFlow_def)
  show ?thesis
    unfolding Reactor_updateOutputs_double [OF wf ne len] v reactor_test_half
    by (simp add: reactor_test_device_def)
qed



text \<open>
  C8. \<^verbatim>\<open>getIsDoubleOutput\<close> returns the argument of the constructor, right after
  construction and after any sequence of \<^verbatim>\<open>addInput\<close>, \<^verbatim>\<open>addOutput\<close> and
  \<^verbatim>\<open>updateOutputs\<close> calls, whether they return or throw. It is a function of the
  reactor alone and returns nothing but the flag, so it has no effect on any state.
\<close>

theorem getIsDoubleOutput_stable:
  "getIsDoubleOutput (Reactor_init b) = b
   \<and> getIsDoubleOutput (fst (Reactor_run cs (Reactor_init b, h))) = b"
proof -
  have "Reactor_wf b (fst (Reactor_run cs (Reactor_init b, h)))"
    using Reactor_wf_run [of b "(Reactor_init b, h)" cs] by (simp add: Reactor_wf_init)
  then show ?thesis
    by (simp add: Reactor_wf_def getIsDoubleOutput_def Reactor_init_def)
qed

section \<open>Mixers built by the constructor\<close>

lemma size_t_of_int_bound: "size_t_of_int i < 2 ^ 64"
proof -
  have "0 \<le> i mod 2 ^ 64" and "i mod 2 ^ 64 < 2 ^ 64" by simp_all
  then show ?thesis by (simp add: size_t_of_int_def nat_less_iff)
qed

lemma size_t_of_int_length:
  assumes "int k = n" and "k \<le> size_t_of_int n"
  shows "size_t_of_int n = k"
proof -
  have "k < 2 ^ 64" using assms(2) size_t_of_int_bound [of n] by simp
  then have "n < 2 ^ 64" using assms(1) by auto
  moreover have "0 \<le> n" using assms(1) by auto
  ultimately have "n mod 2 ^ 64 = n" by simp
  then show ?thesis using assms(1) by (auto simp: size_t_of_int_def)
qed

lemma size_t_of_int_le:
  "0 \<le> n \<Longrightarrow> int (size_t_of_int n) \<le> n"
  by (simp add: size_t_of_int_def zmod_le_nonneg_dividend)

lemma Mixer_wf_init: "Mixer_wf n (Mixer_init n)"
  by (simp add: Mixer_wf_def Mixer_init_def)

lemma Mixer_updateOutputs_device:
  "fst (snd (Mixer_updateOutputs (m, h))) = m"
  by (simp add: Mixer_updateOutputs_def Let_def split: option.splits)

lemma Mixer_wf_call:
  assumes "Mixer_wf n (fst st)"
  shows "Mixer_wf n (fst (snd (Mixer_call c st)))"
proof (cases st)
  case (Pair m h)
  with assms have wf: "Mixer_wf n m" by simp
  show ?thesis
  proof (cases c)
    case (AddInput s)
    with Pair wf show ?thesis
      by (auto simp: Mixer_wf_def Mixer_addInput_def)
  next
    case (AddOutput s)
    with Pair wf show ?thesis
      by (cases "outputs m") (auto simp: Mixer_wf_def Mixer_addOutput_def MIXER_OUTPUTS_def)
  next
    case UpdateOutputs
    with Pair wf show ?thesis
      by (simp add: Mixer_updateOutputs_device)
  qed
qed

lemma Mixer_wf_run:
  "Mixer_wf n (fst st) \<Longrightarrow> Mixer_wf n (fst (Mixer_run cs st))"
  by (induction cs arbitrary: st) (simp_all add: Mixer_wf_call)

lemma Mixer_wf_reachable:
  "Mixer_run cs (Mixer_init n, h0) = (m, h) \<Longrightarrow> Mixer_wf n m"
  using Mixer_wf_run [of n "(Mixer_init n, h0)" cs] by (simp add: Mixer_wf_init)

lemma Mixer_addInput_full:
  assumes "Mixer_wf n m" and "int (length (inputs m)) = inputs_count m"
  shows "Mixer_addInput s m = (Thrown (StdString ''Too much inputs''), m)"
proof -
  have "size_t_of_int (inputs_count m) = length (inputs m)"
    using assms by (intro size_t_of_int_length) (simp_all add: Mixer_wf_def)
  then show ?thesis by (simp add: Mixer_addInput_def)
qed

lemma Mixer_addOutput_full:
  assumes "int (length (outputs m)) = MIXER_OUTPUTS"
  shows "Mixer_addOutput s m = (Thrown (StdString ''Too much outputs''), m)"
  using assms by (simp add: Mixer_addOutput_def MIXER_OUTPUTS_def)

lemma Device_addInput_full:
  assumes "Reactor_wf b r" and "inputAmount r = Some (int (length (inputs r)))"
  shows "Device_addInput s r = (Thrown (CString ''INPUT STREAM LIMIT!''), r)"
  using assms by (auto simp: Device_addInput_def Reactor_wf_def)

lemma Device_addOutput_full:
  assumes "Reactor_wf b r" and "outputAmount r = Some (int (length (outputs r)))"
  shows "Device_addOutput s r = (Thrown (CString ''OUTPUT STREAM LIMIT!''), r)"
  using assms by (auto simp: Device_addOutput_def Reactor_wf_def split: if_splits)

lemma spec_kind_values:
  "spec_kind (CString ''INPUT STREAM LIMIT!'') = Some (CapacityExceeded Input)"
  "spec_kind (StdString ''Too much inputs'') = Some (CapacityExceeded Input)"
  "spec_kind (CString ''OUTPUT STREAM LIMIT!'') = Some (CapacityExceeded Output)"
  "spec_kind (StdString ''Too much outputs'') = Some (CapacityExceeded Output)"
  "spec_kind (StdString ''Should set outputs before update'') = Some PreconditionViolation"
  "spec_kind (StdString ''Input stream not connected to reactor'') = Some PreconditionViolation"
  "spec_kind (StdString ''Output streams not properly set for reactor'')
     = Some PreconditionViolation"
  by (simp_all add: spec_kind_def)

section \<open>Runs and stores\<close>

text \<open>
  The device a run ends with does not depend on the store, and the run without its
  \<^verbatim>\<open>updateOutputs\<close> calls ends with the same device and leaves the store alone. So a
  device that a run reaches is reached together with any store whatever: the theorems
  below that speak of a state reached by a run hold for each such device and every store,
  also one in which the caller has set mass-flows between the calls.
\<close>

lemma Reactor_call_device:
  "fst (snd (Reactor_call c (r, h1))) = fst (snd (Reactor_call c (r, h2)))"
  by (cases c) (simp_all add: Reactor_updateOutputs_device split: prod.splits)

lemma Reactor_run_any_store:
  "Reactor_run (filter (\<lambda>c. c \<noteq> UpdateOutputs) cs) (r, h)
     = (fst (Reactor_run cs (r, h0)), h)"
proof (induction cs arbitrary: r h0)
  case Nil
  show ?case by simp
next
  case (Cons c cs)
  show ?case
  proof (cases c)
    case UpdateOutputs
    obtain out h1 where "Reactor_updateOutputs (r, h0) = (out, r, h1)"
      using Reactor_updateOutputs_device [of r h0]
      by (cases "Reactor_updateOutputs (r, h0)") auto
    then show ?thesis using UpdateOutputs Cons.IH [of r h1] by simp
  next
    case (AddInput s)
    then show ?thesis using Cons.IH by (simp split: prod.splits)
  next
    case (AddOutput s)
    then show ?thesis using Cons.IH by (simp split: prod.splits)
  qed
qed

lemma Mixer_run_any_store:
  "Mixer_run (filter (\<lambda>c. c \<noteq> UpdateOutputs) cs) (m, h)
     = (fst (Mixer_run cs (m, h0)), h)"
proof (induction cs arbitrary: m h0)
  case Nil
  show ?case by simp
next
  case (Cons c cs)
  show ?case
  proof (cases c)
    case UpdateOutputs
    obtain out h1 where "Mixer_updateOutputs (m, h0) = (out, m, h1)"
      using Mixer_updateOutputs_device [of m h0]
      by (cases "Mixer_updateOutputs (m, h0)") auto
    then show ?thesis using UpdateOutputs Cons.IH [of m h1] by simp
  next
    case (AddInput s)
    then show ?thesis using Cons.IH by (simp split: prod.splits)
  next
    case (AddOutput s)
    then show ?thesis using Cons.IH by (simp split: prod.splits)
  qed
qed

section \<open>The casts of the second file\<close>

text \<open>
  For a vector of fewer than \<open>2^31\<close> elements, the equality tests of the two files agree
  for every \<^verbatim>\<open>int\<close>, and the order tests agree for every \<^verbatim>\<open>int\<close> that is not negative,
  as the capacities 1 and 2 of a reactor are.
\<close>

lemma int_of_size_t_small: "k < 2 ^ 31 \<Longrightarrow> int_of_size_t k = int k"
proof -
  assume "k < 2 ^ 31"
  then have "int k < 2 ^ 31" by (simp add: nat_less_iff flip: of_nat_less_iff)
  then have "(int k + 2 ^ 31) mod 2 ^ 32 = int k + 2 ^ 31" by simp
  then show ?thesis by (simp add: int_of_size_t_def)
qed

lemma gtest_casts_agree:
  assumes "k < 2 ^ 31" and "- (2 ^ 31) \<le> a" and "a < 2 ^ 31"
  shows "(int_of_size_t k = a) = (k = size_t_of_int a)"
    and "0 \<le> a \<Longrightarrow> (int_of_size_t k < a) = (k < size_t_of_int a)"
proof -
  have k: "int_of_size_t k = int k" using assms(1) by (rule int_of_size_t_small)
  have kb: "int k < 2 ^ 31" using assms(1) by (simp flip: of_nat_less_iff)
  show "(int_of_size_t k = a) = (k = size_t_of_int a)"
  proof (cases "0 \<le> a")
    case True
    with assms(3) have "a mod 2 ^ 64 = a" by simp
    then show ?thesis using True by (auto simp: k size_t_of_int_def)
  next
    case False
    have "0 \<le> a mod 2 ^ 64" by simp
    then have "int (size_t_of_int a) = a mod 2 ^ 64"
      by (simp add: size_t_of_int_def)
    moreover have "a mod 2 ^ 64 = (a + 2 ^ 64) mod 2 ^ 64" by simp
    moreover have "(a + 2 ^ 64) mod 2 ^ 64 = a + 2 ^ 64"
      using False assms(2) by (intro mod_pos_pos_trivial) simp_all
    ultimately have "int (size_t_of_int a) = a + 2 ^ 64" by (simp only:)
    then have "int k \<noteq> int (size_t_of_int a)" using kb assms(2) by simp
    then have "k \<noteq> size_t_of_int a" by auto
    then show ?thesis using False by (simp add: k)
  qed
  show "(int_of_size_t k < a) = (k < size_t_of_int a)" if "0 \<le> a"
  proof -
    from that assms(3) have "a mod 2 ^ 64 = a" by simp
    then show ?thesis using that by (auto simp: k size_t_of_int_def)
  qed
qed

section \<open>Capacities\<close>

text \<open>
  The functions of \<^verbatim>\<open>Device\<close> that a mixer hides test the inherited capacities,
  which are 0: reached through the base class they throw at once.
\<close>

lemma Device_add_on_Mixer:
  "Device_addInput s (Mixer_init n) = (Thrown (CString ''INPUT STREAM LIMIT!''), Mixer_init n)"
  "Device_addOutput s (Mixer_init n) = (Thrown (CString ''OUTPUT STREAM LIMIT!''), Mixer_init n)"
  by (simp_all add: Device_addInput_def Device_addOutput_def Mixer_init_def size_t_of_int_def)

text \<open>
  C4. In any state a sequence of calls has left a device in: \<^verbatim>\<open>addInput\<close>, called
  when the input vector holds as many streams as the input capacity says, throws its
  limit message, a value of the kind CapacityExceeded for the input, and returns the
  device as it was, so with as many inputs as before; \<^verbatim>\<open>addOutput\<close> at the output
  capacity throws its limit message, of the kind CapacityExceeded for the output, and
  returns the device as it was. For a reactor the capacities are
  \<^verbatim>\<open>inputAmount\<close> and \<^verbatim>\<open>outputAmount\<close> and the functions are those of
  \<^verbatim>\<open>Device\<close>; for a mixer they are \<^verbatim>\<open>_inputs_count\<close> and \<^verbatim>\<open>MIXER_OUTPUTS\<close> and
  the functions are the mixer's own.
\<close>

theorem add_at_capacity_throws:
  "(Reactor_run cs (Reactor_init b, h0) = (r, h) \<longrightarrow>
      (inputAmount r = Some (int (length (inputs r))) \<longrightarrow>
         Device_addInput s r = (Thrown (CString ''INPUT STREAM LIMIT!''), r))
    \<and> (outputAmount r = Some (int (length (outputs r))) \<longrightarrow>
         Device_addOutput s r = (Thrown (CString ''OUTPUT STREAM LIMIT!''), r)))
   \<and> (Mixer_run cs' (Mixer_init n, h0') = (m, h') \<longrightarrow>
      (int (length (inputs m)) = inputs_count m \<longrightarrow>
         Mixer_addInput s m = (Thrown (StdString ''Too much inputs''), m))
    \<and> (int (length (outputs m)) = MIXER_OUTPUTS \<longrightarrow>
         Mixer_addOutput s m = (Thrown (StdString ''Too much outputs''), m)))
   \<and> spec_kind (CString ''INPUT STREAM LIMIT!'') = Some (CapacityExceeded Input)
   \<and> spec_kind (CString ''OUTPUT STREAM LIMIT!'') = Some (CapacityExceeded Output)
   \<and> spec_kind (StdString ''Too much inputs'') = Some (CapacityExceeded Input)
   \<and> spec_kind (StdString ''Too much outputs'') = Some (CapacityExceeded Output)"
proof -
  have R: "Reactor_run cs (Reactor_init b, h0) = (r, h) \<Longrightarrow> Reactor_wf b r"
    by (rule Reactor_wf_reachable)
  have M: "Mixer_run cs' (Mixer_init n, h0') = (m, h') \<Longrightarrow> Mixer_wf n m"
    by (rule Mixer_wf_reachable)
  show ?thesis
    using R M
    by (auto simp: Device_addInput_full Device_addOutput_full Mixer_addInput_full
        Mixer_addOutput_full spec_kind_values)
qed

theorem add_at_capacity_throws_witness:
  "Reactor_run [AddInput 1, AddOutput 2] (Reactor_init False, reactor_test_store)
     = (reactor_test_device\<lparr>outputs := [2], outputAmount := Some 1, isDoubleOutput := False\<rparr>,
        reactor_test_store)
   \<and> Device_addInput 4
        (reactor_test_device\<lparr>outputs := [2], outputAmount := Some 1, isDoubleOutput := False\<rparr>)
     = (Thrown (CString ''INPUT STREAM LIMIT!''),
        reactor_test_device\<lparr>outputs := [2], outputAmount := Some 1, isDoubleOutput := False\<rparr>)
   \<and> Device_addOutput 4
        (reactor_test_device\<lparr>outputs := [2], outputAmount := Some 1, isDoubleOutput := False\<rparr>)
     = (Thrown (CString ''OUTPUT STREAM LIMIT!''),
        reactor_test_device\<lparr>outputs := [2], outputAmount := Some 1, isDoubleOutput := False\<rparr>)
   \<and> Mixer_run [AddInput 1, AddInput 2, AddOutput 3] (Mixer_init 2, mixer_test_store)
     = (mixer_test_device, mixer_test_store)
   \<and> int (length (inputs mixer_test_device)) = inputs_count mixer_test_device
   \<and> int (length (outputs mixer_test_device)) = MIXER_OUTPUTS
   \<and> Mixer_addInput 4 mixer_test_device = (Thrown (StdString ''Too much inputs''), mixer_test_device)
   \<and> Mixer_addOutput 4 mixer_test_device
     = (Thrown (StdString ''Too much outputs''), mixer_test_device)"
proof -
  let ?r = "reactor_test_device\<lparr>outputs := [2], outputAmount := Some 1, isDoubleOutput := False\<rparr>"
  have runR: "Reactor_run [AddInput 1, AddOutput 2] (Reactor_init False, reactor_test_store)
     = (?r, reactor_test_store)"
    by (simp add: Reactor_init_def Device_addInput_def Device_addOutput_def
        reactor_test_device_def)
  have runM: "Mixer_run [AddInput 1, AddInput 2, AddOutput 3] (Mixer_init 2, mixer_test_store)
     = (mixer_test_device, mixer_test_store)"
    by (rule Mixer_test_run)
  have capR: "inputAmount ?r = Some (int (length (inputs ?r)))"
    "outputAmount ?r = Some (int (length (outputs ?r)))"
    by (simp_all add: reactor_test_device_def)
  have capM: "int (length (inputs mixer_test_device)) = inputs_count mixer_test_device"
    "int (length (outputs mixer_test_device)) = MIXER_OUTPUTS"
    by (simp_all add: mixer_test_device_def MIXER_OUTPUTS_def)
  from add_at_capacity_throws [of "[AddInput 1, AddOutput 2]" False reactor_test_store ?r
      reactor_test_store 4 "[AddInput 1, AddInput 2, AddOutput 3]" 2 mixer_test_store
      mixer_test_device mixer_test_store]
    runR runM capR capM
  show ?thesis
    by (simp add: Device_addInput_def Device_addOutput_def Mixer_addInput_def
        Mixer_addOutput_def MIXER_OUTPUTS_def size_t_of_int_def
        reactor_test_device_def mixer_test_device_def)
qed

text \<open>
  C5. For every reactor, and for every mixer constructed with a count that is not
  negative, as the specification expects it, every state that construction followed by
  any sequence of \<^verbatim>\<open>addInput\<close>, \<^verbatim>\<open>addOutput\<close> and \<^verbatim>\<open>updateOutputs\<close> calls reaches
  has at most as many inputs as the input capacity and at most as many outputs as the
  output capacity; and an add call made at the capacity throws and leaves the device as it
  was, so nothing is dropped silently.
\<close>

theorem capacity_invariant:
  "(Reactor_run cs (Reactor_init b, h0) = (r, h) \<longrightarrow>
      inputAmount r = Some 1 \<and> outputAmount r = Some (if b then 2 else 1)
      \<and> int (length (inputs r)) \<le> 1
      \<and> int (length (outputs r)) \<le> (if b then 2 else 1)
      \<and> (length (inputs r) = 1 \<longrightarrow> is_Thrown (fst (Device_addInput s r))
            \<and> snd (Device_addInput s r) = r)
      \<and> (int (length (outputs r)) = (if b then 2 else 1) \<longrightarrow>
            is_Thrown (fst (Device_addOutput s r)) \<and> snd (Device_addOutput s r) = r))
   \<and> (0 \<le> n \<and> Mixer_run cs' (Mixer_init n, h0') = (m, h') \<longrightarrow>
      inputs_count m = n
      \<and> int (length (inputs m)) \<le> inputs_count m
      \<and> int (length (outputs m)) \<le> MIXER_OUTPUTS
      \<and> (int (length (inputs m)) = inputs_count m \<longrightarrow>
            is_Thrown (fst (Mixer_addInput s m)) \<and> snd (Mixer_addInput s m) = m)
      \<and> (int (length (outputs m)) = MIXER_OUTPUTS \<longrightarrow>
            is_Thrown (fst (Mixer_addOutput s m)) \<and> snd (Mixer_addOutput s m) = m))"
proof -
  have R: "inputAmount r = Some 1 \<and> outputAmount r = Some (if b then 2 else 1)
      \<and> int (length (inputs r)) \<le> 1
      \<and> int (length (outputs r)) \<le> (if b then 2 else 1)
      \<and> (length (inputs r) = 1 \<longrightarrow> is_Thrown (fst (Device_addInput s r))
            \<and> snd (Device_addInput s r) = r)
      \<and> (int (length (outputs r)) = (if b then 2 else 1) \<longrightarrow>
            is_Thrown (fst (Device_addOutput s r)) \<and> snd (Device_addOutput s r) = r)"
    if reach: "Reactor_run cs (Reactor_init b, h0) = (r, h)"
  proof -
    have wf: "Reactor_wf b r" using reach by (rule Reactor_wf_reachable)
    have "length (inputs r) = 1 \<Longrightarrow> inputAmount r = Some (int (length (inputs r)))"
      using wf by (simp add: Reactor_wf_def)
    moreover have "int (length (outputs r)) = (if b then 2 else 1)
        \<Longrightarrow> outputAmount r = Some (int (length (outputs r)))"
      using wf by (simp add: Reactor_wf_def)
    ultimately show ?thesis
      using wf Device_addInput_full [OF wf, of s] Device_addOutput_full [OF wf, of s]
      by (auto simp: Reactor_wf_def)
  qed
  have M: "inputs_count m = n
      \<and> int (length (inputs m)) \<le> inputs_count m
      \<and> int (length (outputs m)) \<le> MIXER_OUTPUTS
      \<and> (int (length (inputs m)) = inputs_count m \<longrightarrow>
            is_Thrown (fst (Mixer_addInput s m)) \<and> snd (Mixer_addInput s m) = m)
      \<and> (int (length (outputs m)) = MIXER_OUTPUTS \<longrightarrow>
            is_Thrown (fst (Mixer_addOutput s m)) \<and> snd (Mixer_addOutput s m) = m)"
    if nonneg: "0 \<le> n" and reach: "Mixer_run cs' (Mixer_init n, h0') = (m, h')"
  proof -
    have wf: "Mixer_wf n m" using reach by (rule Mixer_wf_reachable)
    have "int (length (inputs m)) \<le> int (size_t_of_int n)"
      using wf by (simp add: Mixer_wf_def)
    also have "\<dots> \<le> n" using nonneg by (rule size_t_of_int_le)
    finally have len: "int (length (inputs m)) \<le> inputs_count m"
      using wf by (simp add: Mixer_wf_def)
    have out: "int (length (outputs m)) \<le> MIXER_OUTPUTS"
      using wf by (simp add: Mixer_wf_def MIXER_OUTPUTS_def)
    show ?thesis
      using wf len out Mixer_addInput_full [OF wf, of s] Mixer_addOutput_full [of m s]
      by (auto simp: Mixer_wf_def)
  qed
  from R M show ?thesis by blast
qed

theorem capacity_invariant_witness:
  "Reactor_run [AddInput 1, AddOutput 2, AddOutput 3] (Reactor_init True, reactor_test_store)
     = (reactor_test_device, reactor_test_store)
   \<and> (0::int) \<le> 2
   \<and> Mixer_run [AddInput 1, AddInput 2, AddOutput 3] (Mixer_init 2, mixer_test_store)
     = (mixer_test_device, mixer_test_store)
   \<and> length (inputs reactor_test_device) = 1
   \<and> int (length (outputs reactor_test_device)) = 2
   \<and> is_Thrown (fst (Device_addInput 4 reactor_test_device))
   \<and> is_Thrown (fst (Device_addOutput 4 reactor_test_device))
   \<and> int (length (inputs mixer_test_device)) = inputs_count mixer_test_device
   \<and> int (length (outputs mixer_test_device)) = MIXER_OUTPUTS
   \<and> is_Thrown (fst (Mixer_addInput 4 mixer_test_device))
   \<and> is_Thrown (fst (Mixer_addOutput 4 mixer_test_device))"
proof -
  have runR: "Reactor_run [AddInput 1, AddOutput 2, AddOutput 3]
      (Reactor_init True, reactor_test_store) = (reactor_test_device, reactor_test_store)"
    by (rule Reactor_test_run)
  have runM: "Mixer_run [AddInput 1, AddInput 2, AddOutput 3] (Mixer_init 2, mixer_test_store)
     = (mixer_test_device, mixer_test_store)"
    by (rule Mixer_test_run)
  have lenR: "length (inputs reactor_test_device) = 1"
    "int (length (outputs reactor_test_device)) = 2"
    by (simp_all add: reactor_test_device_def)
  have lenM: "int (length (inputs mixer_test_device)) = inputs_count mixer_test_device"
    "int (length (outputs mixer_test_device)) = MIXER_OUTPUTS"
    by (simp_all add: mixer_test_device_def MIXER_OUTPUTS_def)
  from capacity_invariant [of "[AddInput 1, AddOutput 2, AddOutput 3]" True reactor_test_store
      reactor_test_device reactor_test_store 4 2 "[AddInput 1, AddInput 2, AddOutput 3]"
      mixer_test_store mixer_test_device mixer_test_store]
    runR runM lenR lenM
  show ?thesis by simp
qed

text \<open>
  A count below zero is outside what the specification expects. The comparison converts
  such a count to a large unsigned value, so \<^verbatim>\<open>addInput\<close> of that mixer keeps appending.
\<close>

lemma Mixer_negative_count:
  "Mixer_run [] (Mixer_init (- 1), mixer_test_store) = (Mixer_init (- 1), mixer_test_store)
   \<and> inputs_count (Mixer_init (- 1)) = - 1
   \<and> \<not> int (length (inputs (Mixer_init (- 1)))) \<le> inputs_count (Mixer_init (- 1))
   \<and> Mixer_addInput 1 (Mixer_init (- 1)) = (Returned, (Mixer_init (- 1))\<lparr>inputs := [1]\<rparr>)"
  by (simp add: Mixer_init_def Mixer_addInput_def size_t_of_int_def)

section \<open>Failing and faulting calls of updateOutputs\<close>

lemma Reactor_updateOutputs_cases:
  assumes wf: "Reactor_wf b r"
  shows "Reactor_updateOutputs (r, h) =
    (if inputs r = []
     then (Thrown (StdString ''Input stream not connected to reactor''), r, h)
     else if length (outputs r) \<noteq> (if b then 2 else 1)
     then (Thrown (StdString ''Output streams not properly set for reactor''), r, h)
     else (Returned, snd (Reactor_updateOutputs (r, h))))"
proof (cases "inputs r = []")
  case True
  then show ?thesis by (simp add: Reactor_updateOutputs_no_input)
next
  case ne: False
  show ?thesis
  proof (cases "length (outputs r) = (if b then 2 else 1)")
    case False
    then show ?thesis
      using ne Reactor_updateOutputs_wrong_outputs [OF wf ne, of h] by simp
  next
    case len: True
    show ?thesis
    proof (cases b)
      case True
      with wf len have "Reactor_wf True r" "length (outputs r) = 2" by simp_all
      from Reactor_updateOutputs_double [OF this(1) ne this(2), of h] ne len True
      show ?thesis by simp
    next
      case False
      with wf len have "Reactor_wf False r" "length (outputs r) = 1" by simp_all
      from Reactor_updateOutputs_single [OF this(1) ne this(2), of h] ne len False
      show ?thesis by simp
    qed
  qed
qed

lemma Reactor_wf_wiring:
  assumes "Reactor_wf b r"
  shows "(length (inputs r) \<noteq> 1 \<or> outputAmount r \<noteq> Some (int (length (outputs r))))
    \<longleftrightarrow> (inputs r = [] \<or> length (outputs r) \<noteq> (if b then 2 else 1))"
proof -
  have "length (inputs r) \<noteq> 1 \<longleftrightarrow> inputs r = []"
    using assms by (cases "inputs r") (auto simp: Reactor_wf_def)
  moreover have "outputAmount r \<noteq> Some (int (length (outputs r)))
      \<longleftrightarrow> length (outputs r) \<noteq> (if b then 2 else 1)"
    using assms by (auto simp: Reactor_wf_def)
  ultimately show ?thesis by simp
qed

text \<open>
  C3. \<^verbatim>\<open>updateOutputs\<close> throws exactly when the wiring is absent or incomplete: for a
  mixer, when no output is attached; for a reactor, in any state a sequence of calls has
  left it in, when the number of attached inputs is not one or the number of attached
  outputs differs from \<^verbatim>\<open>outputAmount\<close>. Whatever it throws is of the kind
  PreconditionViolation, and the call that throws leaves the device and the store, hence
  every mass-flow and both vectors, as they were.
\<close>

theorem updateOutputs_failure:
  "((is_Thrown (fst (Mixer_updateOutputs (m, hm))) \<longleftrightarrow> outputs m = [])
     \<and> (\<forall>e. fst (Mixer_updateOutputs (m, hm)) = Thrown e \<longrightarrow>
            spec_kind e = Some PreconditionViolation
            \<and> snd (Mixer_updateOutputs (m, hm)) = (m, hm)))
   \<and> (Reactor_run cs (Reactor_init b, h0) = (r, h) \<longrightarrow>
       (is_Thrown (fst (Reactor_updateOutputs (r, h)))
          \<longleftrightarrow> length (inputs r) \<noteq> 1 \<or> outputAmount r \<noteq> Some (int (length (outputs r))))
     \<and> (\<forall>e. fst (Reactor_updateOutputs (r, h)) = Thrown e \<longrightarrow>
            spec_kind e = Some PreconditionViolation
            \<and> snd (Reactor_updateOutputs (r, h)) = (r, h)))"
proof -
  have M: "(is_Thrown (fst (Mixer_updateOutputs (m, hm))) \<longleftrightarrow> outputs m = [])
     \<and> (\<forall>e. fst (Mixer_updateOutputs (m, hm)) = Thrown e \<longrightarrow>
            spec_kind e = Some PreconditionViolation
            \<and> snd (Mixer_updateOutputs (m, hm)) = (m, hm))"
  proof (cases "outputs m = []")
    case True
    then show ?thesis
      by (simp add: Mixer_updateOutputs_empty spec_kind_values)
  next
    case False
    then show ?thesis
      by (simp add: Mixer_updateOutputs_nonempty)
  qed
  have R: "(is_Thrown (fst (Reactor_updateOutputs (r, h)))
          \<longleftrightarrow> length (inputs r) \<noteq> 1 \<or> outputAmount r \<noteq> Some (int (length (outputs r))))
     \<and> (\<forall>e. fst (Reactor_updateOutputs (r, h)) = Thrown e \<longrightarrow>
            spec_kind e = Some PreconditionViolation
            \<and> snd (Reactor_updateOutputs (r, h)) = (r, h))"
    if reach: "Reactor_run cs (Reactor_init b, h0) = (r, h)"
  proof -
    have wf: "Reactor_wf b r" using reach by (rule Reactor_wf_reachable)
    note wiring = Reactor_wf_wiring [OF wf]
    consider (a) "inputs r = []"
      | (b) "inputs r \<noteq> []" "length (outputs r) \<noteq> (if b then 2 else 1)"
      | (c) "inputs r \<noteq> []" "length (outputs r) = (if b then 2 else 1)"
      by blast
    then show ?thesis
    proof cases
      case a
      then show ?thesis
        using wiring by (simp add: Reactor_updateOutputs_no_input spec_kind_values)
    next
      case b
      then show ?thesis
        using wiring Reactor_updateOutputs_wrong_outputs [OF wf b, of h]
        by (simp add: spec_kind_values)
    next
      case c
      have "fst (Reactor_updateOutputs (r, h)) = Returned"
        using c by (subst Reactor_updateOutputs_cases [OF wf]) simp
      then show ?thesis using wiring c by simp
    qed
  qed
  from M R show ?thesis by blast
qed

theorem updateOutputs_failure_witness:
  "outputs (Mixer_init 2) = []
   \<and> Mixer_updateOutputs (Mixer_init 2, mixer_test_store)
     = (Thrown (StdString ''Should set outputs before update''), Mixer_init 2, mixer_test_store)
   \<and> Reactor_run [AddInput 1, AddOutput 2] (Reactor_init True, reactor_test_store)
     = (reactor_test_device\<lparr>outputs := [2]\<rparr>, reactor_test_store)
   \<and> outputAmount (reactor_test_device\<lparr>outputs := [2]\<rparr>)
     \<noteq> Some (int (length (outputs (reactor_test_device\<lparr>outputs := [2]\<rparr>))))
   \<and> is_Thrown (fst (Reactor_updateOutputs
        (reactor_test_device\<lparr>outputs := [2]\<rparr>, reactor_test_store)))
   \<and> snd (Reactor_updateOutputs (reactor_test_device\<lparr>outputs := [2]\<rparr>, reactor_test_store))
     = (reactor_test_device\<lparr>outputs := [2]\<rparr>, reactor_test_store)"
proof -
  let ?r = "reactor_test_device\<lparr>outputs := [2]\<rparr>"
  have emp: "outputs (Mixer_init 2) = []"
    by (simp add: Mixer_init_def)
  have run: "Reactor_run [AddInput 1, AddOutput 2] (Reactor_init True, reactor_test_store)
     = (?r, reactor_test_store)"
    by (simp add: Reactor_init_def Device_addInput_def Device_addOutput_def
        reactor_test_device_def)
  have wrong: "outputAmount ?r \<noteq> Some (int (length (outputs ?r)))"
    by (simp add: reactor_test_device_def)
  have thrown: "Reactor_updateOutputs (?r, reactor_test_store)
     = (Thrown (StdString ''Output streams not properly set for reactor''), ?r,
        reactor_test_store)"
    by (simp add: Reactor_updateOutputs_def reactor_test_device_def)
  from updateOutputs_failure [of "Mixer_init 2" mixer_test_store "[AddInput 1, AddOutput 2]"
      True reactor_test_store ?r reactor_test_store] emp run wrong thrown
  show ?thesis by (simp add: Mixer_updateOutputs_empty)
qed

text \<open>
  C10. In every state that construction and any sequence of calls reaches,
  \<^verbatim>\<open>updateOutputs\<close> has no undefined outcome: the mixer never divides by an output
  count of zero, and the reactor never indexes \<^verbatim>\<open>inputs\<close> or \<^verbatim>\<open>outputs\<close> beyond
  their sizes nor reads an unset capacity. The same holds for every other call, so the
  states of a run are themselves reached without a fault. The lemma after the theorem
  shows the unchecked index at work on a record that no run reaches.
\<close>

theorem updateOutputs_safe:
  "\<not> is_Undefined (fst (Mixer_updateOutputs (Mixer_run cs (Mixer_init n, h0))))
   \<and> \<not> is_Undefined (fst (Reactor_updateOutputs (Reactor_run cs' (Reactor_init b, h0'))))
   \<and> \<not> is_Undefined (fst (Mixer_call c (Mixer_run cs (Mixer_init n, h0))))
   \<and> \<not> is_Undefined (fst (Reactor_call c' (Reactor_run cs' (Reactor_init b, h0'))))"
proof -
  obtain m h where m: "Mixer_run cs (Mixer_init n, h0) = (m, h)"
    by (cases "Mixer_run cs (Mixer_init n, h0)")
  obtain r h' where r: "Reactor_run cs' (Reactor_init b, h0') = (r, h')"
    by (cases "Reactor_run cs' (Reactor_init b, h0')")
  have wf: "Reactor_wf b r" using r by (rule Reactor_wf_reachable)
  have M: "\<not> is_Undefined (fst (Mixer_updateOutputs (m, h)))"
    by (cases "outputs m = []")
      (simp_all add: Mixer_updateOutputs_empty Mixer_updateOutputs_nonempty)
  have R: "\<not> is_Undefined (fst (Reactor_updateOutputs (r, h')))"
    by (subst Reactor_updateOutputs_cases [OF wf]) simp
  have MC: "\<not> is_Undefined (fst (Mixer_call c (m, h)))"
    using M by (cases c) (simp_all add: Mixer_addInput_def Mixer_addOutput_def)
  have RC: "\<not> is_Undefined (fst (Reactor_call c' (r, h')))"
    using R wf
    by (cases c') (simp_all add: Device_addInput_def Device_addOutput_def Reactor_wf_def)
  from M R MC RC show ?thesis by (simp add: m r)
qed

lemma Reactor_updateOutputs_unchecked_index:
  "Reactor_updateOutputs (reactor_test_device\<lparr>outputs := [2], outputAmount := Some 1\<rparr>, h)
     = (Undefined IndexOutOfBounds,
        reactor_test_device\<lparr>outputs := [2], outputAmount := Some 1\<rparr>,
        h(2 := setMassFlow (ddiv (getMassFlow (h 1)) (double_of_int 2)) (h 2)))"
  by (simp add: Reactor_updateOutputs_def reactor_test_device_def vec_at_def)

section \<open>What a returning call changes\<close>

lemma Reactor_updateOutputs_Returned:
  assumes "Reactor_updateOutputs (r, h) = (Returned, r', h')"
  shows "r' = r \<and> (\<forall>x. name (h' x) = name (h x)) \<and> (\<forall>x. x \<notin> set (outputs r) \<longrightarrow> h' x = h x)"
  using assms
  by (auto simp: Reactor_updateOutputs_def vec_at_def Let_def setMassFlow_def
      split: option.splits if_splits)

text \<open>
  C9. Let no stream be attached to a device both as an input and as an output. A call
  of \<^verbatim>\<open>updateOutputs\<close> that returns then leaves the device as it was, with its two
  vectors and its capacities; it leaves the name of every stream as it was; it leaves
  every stream that is not an attached output as it was altogether; and so every input
  keeps its mass-flow. This holds for every mixer and every reactor record and every store.
\<close>

theorem updateOutputs_frame:
  "(Mixer_updateOutputs (m, hm) = (Returned, m', hm') \<and> set (inputs m) \<inter> set (outputs m) = {}
      \<longrightarrow> m' = m
        \<and> (\<forall>x. getName (hm' x) = getName (hm x))
        \<and> (\<forall>x. x \<notin> set (outputs m) \<longrightarrow> hm' x = hm x)
        \<and> (\<forall>i \<in> set (inputs m). getMassFlow (hm' i) = getMassFlow (hm i)))
   \<and> (Reactor_updateOutputs (r, h) = (Returned, r', h') \<and> set (inputs r) \<inter> set (outputs r) = {}
      \<longrightarrow> r' = r
        \<and> (\<forall>x. getName (h' x) = getName (h x))
        \<and> (\<forall>x. x \<notin> set (outputs r) \<longrightarrow> h' x = h x)
        \<and> (\<forall>i \<in> set (inputs r). getMassFlow (h' i) = getMassFlow (h i)))"
proof -
  have M: "m' = m
        \<and> (\<forall>x. getName (hm' x) = getName (hm x))
        \<and> (\<forall>x. x \<notin> set (outputs m) \<longrightarrow> hm' x = hm x)
        \<and> (\<forall>i \<in> set (inputs m). getMassFlow (hm' i) = getMassFlow (hm i))"
    if ret: "Mixer_updateOutputs (m, hm) = (Returned, m', hm')"
      and disj: "set (inputs m) \<inter> set (outputs m) = {}"
  proof -
    have ne: "outputs m \<noteq> []"
      using ret by (auto simp: Mixer_updateOutputs_empty)
    let ?F = "fold (\<lambda>r h'. h'(r := setMassFlow
              (ddiv (double_sum (map (\<lambda>i. getMassFlow (hm i)) (inputs m)))
                 (double_of_size (length (outputs m))))
              (h' r))) (outputs m) hm"
    have "(Returned, m, ?F) = (Returned, m', hm')"
      using ret by (simp only: Mixer_updateOutputs_nonempty [OF ne])
    then have eq: "m' = m" and hm': "hm' = ?F"
      by blast+
    have names: "\<forall>x. getName (hm' x) = getName (hm x)"
      by (simp add: hm' getName_def fold_assign_name)
    have others: "\<forall>x. x \<notin> set (outputs m) \<longrightarrow> hm' x = hm x"
      by (simp add: hm' fold_assign_other)
    from others disj have "\<forall>i \<in> set (inputs m). getMassFlow (hm' i) = getMassFlow (hm i)"
      by auto
    with eq names others show ?thesis by blast
  qed
  have R: "r' = r
        \<and> (\<forall>x. getName (h' x) = getName (h x))
        \<and> (\<forall>x. x \<notin> set (outputs r) \<longrightarrow> h' x = h x)
        \<and> (\<forall>i \<in> set (inputs r). getMassFlow (h' i) = getMassFlow (h i))"
    if ret: "Reactor_updateOutputs (r, h) = (Returned, r', h')"
      and disj: "set (inputs r) \<inter> set (outputs r) = {}"
  proof -
    note fr = Reactor_updateOutputs_Returned [OF ret]
    from fr have others: "\<forall>x. x \<notin> set (outputs r) \<longrightarrow> h' x = h x" by blast
    from others disj have "\<forall>i \<in> set (inputs r). getMassFlow (h' i) = getMassFlow (h i)"
      by auto
    with fr show ?thesis by (simp add: getName_def)
  qed
  from M R show ?thesis by blast
qed

theorem updateOutputs_frame_witness:
  "Mixer_updateOutputs (mixer_test_device, mixer_test_store)
     = (Returned, mixer_test_device, mixer_test_updated)
   \<and> set (inputs mixer_test_device) \<inter> set (outputs mixer_test_device) = {}
   \<and> getMassFlow (mixer_test_updated 1) = double_of_int 10
   \<and> getMassFlow (mixer_test_updated 2) = double_of_int 5
   \<and> getName (mixer_test_updated 3) = ''s3''
   \<and> Reactor_updateOutputs (reactor_test_device, reactor_test_store)
     = (Returned, reactor_test_device, reactor_test_updated)
   \<and> set (inputs reactor_test_device) \<inter> set (outputs reactor_test_device) = {}
   \<and> getMassFlow (reactor_test_updated 1) = double_of_int 30
   \<and> getName (reactor_test_updated 2) = ''s2''"
proof -
  have retM: "Mixer_updateOutputs (mixer_test_device, mixer_test_store)
     = (Returned, mixer_test_device, mixer_test_updated)"
    by (simp add: mixer_test_updated_def mixer_test_update)
  have disjM: "set (inputs mixer_test_device) \<inter> set (outputs mixer_test_device) = {}"
    by (simp add: mixer_test_device_def)
  have retR: "Reactor_updateOutputs (reactor_test_device, reactor_test_store)
     = (Returned, reactor_test_device, reactor_test_updated)"
    by (simp add: reactor_test_updated_def reactor_test_update)
  have disjR: "set (inputs reactor_test_device) \<inter> set (outputs reactor_test_device) = {}"
    by (simp add: reactor_test_device_def)
  have inM: "1 \<in> set (inputs mixer_test_device)" "2 \<in> set (inputs mixer_test_device)"
    and inR: "1 \<in> set (inputs reactor_test_device)"
    by (simp_all add: mixer_test_device_def reactor_test_device_def)
  have before: "getMassFlow (mixer_test_store 1) = double_of_int 10"
    "getMassFlow (mixer_test_store 2) = double_of_int 5"
    "getName (mixer_test_store 3) = ''s3''"
    "getMassFlow (reactor_test_store 1) = double_of_int 30"
    "getName (reactor_test_store 2) = ''s2''"
    by (simp_all add: mixer_test_store_def reactor_test_store_def getMassFlow_def getName_def)
  from updateOutputs_frame [of mixer_test_device mixer_test_store mixer_test_device
      mixer_test_updated reactor_test_device reactor_test_store reactor_test_device
      reactor_test_updated] retM disjM retR disjR inM inR before
  show ?thesis by simp
qed

text \<open>
  Without the proviso the claim fails: with the first input of the test attached as the
  output too, the call overwrites the mass-flow 10 of that input with 15.
\<close>

lemma updateOutputs_aliased_input:
  "getMassFlow (mixer_test_store 1) = double_of_int 10
   \<and> getMassFlow (snd (snd (Mixer_updateOutputs
        (mixer_test_device\<lparr>outputs := [1]\<rparr>, mixer_test_store))) 1) = double_of_int 15"
proof -
  let ?m = "mixer_test_device\<lparr>outputs := [1]\<rparr>"
  have ne: "outputs ?m \<noteq> []" by simp
  have s: "double_sum (map (\<lambda>i. getMassFlow (mixer_test_store i)) (inputs ?m))
      = double_of_int 15"
    using mixer_test_sum by simp
  have "ddiv (double_of_int 15) (double_of_size 1) = double_of_int 15"
    using is_double_double_of_int by (rule ddiv_double_of_size_1)
  then have q: "ddiv (double_of_int 15) (double_of_size (length (outputs ?m)))
      = double_of_int 15"
    by simp
  have "getMassFlow (snd (snd (Mixer_updateOutputs (?m, mixer_test_store))) 1)
      = double_of_int 15"
    unfolding Mixer_updateOutputs_nonempty [OF ne] s q
    by (simp add: getMassFlow_def setMassFlow_def)
  then show ?thesis
    by (simp add: mixer_test_store_def getMassFlow_def)
qed

text \<open>
  C7. Let a call of \<^verbatim>\<open>updateOutputs\<close> return, and let a second call be made in a
  store in which every attached input has the mass-flow it had at the first call. Then
  the second call returns too, and it leaves in every attached output the mass-flow the
  first call left there. The second store is any store with these input values; it is
  the store the first call left when that call changed no input, which is the case of two
  calls in succession. For a reactor the state of the first call is any state a sequence
  of calls reaches.
\<close>

theorem updateOutputs_idempotent:
  "(Mixer_updateOutputs (m, hm) = (Returned, m', hm')
      \<and> (\<forall>i \<in> set (inputs m). getMassFlow (hm1 i) = getMassFlow (hm i))
      \<longrightarrow> fst (Mixer_updateOutputs (m', hm1)) = Returned
        \<and> (\<forall>x \<in> set (outputs m).
              getMassFlow (snd (snd (Mixer_updateOutputs (m', hm1))) x) = getMassFlow (hm' x)))
   \<and> (Reactor_run cs (Reactor_init b, h0) = (r, h)
      \<and> Reactor_updateOutputs (r, h) = (Returned, r', h')
      \<and> (\<forall>i \<in> set (inputs r). getMassFlow (h1 i) = getMassFlow (h i))
      \<longrightarrow> fst (Reactor_updateOutputs (r', h1)) = Returned
        \<and> (\<forall>x \<in> set (outputs r).
              getMassFlow (snd (snd (Reactor_updateOutputs (r', h1))) x) = getMassFlow (h' x)))"
proof -
  have M: "fst (Mixer_updateOutputs (m', hm1)) = Returned
        \<and> (\<forall>x \<in> set (outputs m).
              getMassFlow (snd (snd (Mixer_updateOutputs (m', hm1))) x) = getMassFlow (hm' x))"
    if ret: "Mixer_updateOutputs (m, hm) = (Returned, m', hm')"
      and same: "\<forall>i \<in> set (inputs m). getMassFlow (hm1 i) = getMassFlow (hm i)"
  proof -
    have ne: "outputs m \<noteq> []"
      using ret by (auto simp: Mixer_updateOutputs_empty)
    have sums: "double_sum (map (\<lambda>i. getMassFlow (hm1 i)) (inputs m))
        = double_sum (map (\<lambda>i. getMassFlow (hm i)) (inputs m))"
      using same by (intro arg_cong [where f = double_sum] map_cong) simp_all
    let ?F = "fold (\<lambda>r h'. h'(r := setMassFlow
              (ddiv (double_sum (map (\<lambda>i. getMassFlow (hm i)) (inputs m)))
                 (double_of_size (length (outputs m))))
              (h' r))) (outputs m) hm"
    have "(Returned, m, ?F) = (Returned, m', hm')"
      using ret by (simp only: Mixer_updateOutputs_nonempty [OF ne])
    then have eq: "m' = m" and hm': "hm' = ?F"
      by blast+
    have again: "Mixer_updateOutputs (m, hm1) =
        (Returned, m, fold (\<lambda>r h'. h'(r := setMassFlow
              (ddiv (double_sum (map (\<lambda>i. getMassFlow (hm i)) (inputs m)))
                 (double_of_size (length (outputs m))))
              (h' r))) (outputs m) hm1)"
      by (simp only: Mixer_updateOutputs_nonempty [OF ne] sums)
    show ?thesis
      unfolding eq hm' again
      by (simp add: getMassFlow_def fold_assign_member)
  qed
  have R: "fst (Reactor_updateOutputs (r', h1)) = Returned
        \<and> (\<forall>x \<in> set (outputs r).
              getMassFlow (snd (snd (Reactor_updateOutputs (r', h1))) x) = getMassFlow (h' x))"
    if reach: "Reactor_run cs (Reactor_init b, h0) = (r, h)"
      and ret: "Reactor_updateOutputs (r, h) = (Returned, r', h')"
      and same: "\<forall>i \<in> set (inputs r). getMassFlow (h1 i) = getMassFlow (h i)"
  proof -
    have wf: "Reactor_wf b r" using reach by (rule Reactor_wf_reachable)
    have eq: "r' = r" using Reactor_updateOutputs_Returned [OF ret] by blast
    have ne: "inputs r \<noteq> []"
      using ret by (auto simp: Reactor_updateOutputs_no_input)
    have len: "length (outputs r) = (if b then 2 else 1)"
    proof (rule ccontr)
      assume "length (outputs r) \<noteq> (if b then 2 else 1)"
      from Reactor_updateOutputs_wrong_outputs [OF wf ne this, of h] ret
      show False by simp
    qed
    have v: "mass_flow (h1 (inputs r ! 0)) = mass_flow (h (inputs r ! 0))"
      using same ne by (simp add: getMassFlow_def)
    show ?thesis
    proof (cases b)
      case True
      with wf len have wfT: "Reactor_wf True r" and len2: "length (outputs r) = 2" by simp_all
      have outs: "set (outputs r) = {outputs r ! 0, outputs r ! 1}"
        using len2 by (cases "outputs r"; cases "tl (outputs r)") auto
      from ret have "h' = snd (snd (Reactor_updateOutputs (r, h)))" by simp
      then show ?thesis
        unfolding eq
        by (simp add: Reactor_updateOutputs_double [OF wfT ne len2] outs v getMassFlow_def
            setMassFlow_def)
    next
      case False
      with wf len have wfF: "Reactor_wf False r" and len1: "length (outputs r) = 1" by simp_all
      have outs: "set (outputs r) = {outputs r ! 0}"
        using len1 by (cases "outputs r") auto
      from ret have "h' = snd (snd (Reactor_updateOutputs (r, h)))" by simp
      then show ?thesis
        unfolding eq
        by (simp add: Reactor_updateOutputs_single [OF wfF ne len1] outs v getMassFlow_def
            setMassFlow_def)
    qed
  qed
  from M R show ?thesis by blast
qed

theorem updateOutputs_idempotent_witness:
  "Mixer_updateOutputs (mixer_test_device, mixer_test_store)
     = (Returned, mixer_test_device, mixer_test_updated)
   \<and> getMassFlow (mixer_test_updated 1) = getMassFlow (mixer_test_store 1)
   \<and> getMassFlow (mixer_test_updated 2) = getMassFlow (mixer_test_store 2)
   \<and> getMassFlow (mixer_test_updated 3) = double_of_int 15
   \<and> fst (Mixer_updateOutputs (mixer_test_device, mixer_test_updated)) = Returned
   \<and> getMassFlow (snd (snd (Mixer_updateOutputs (mixer_test_device, mixer_test_updated))) 3)
       = double_of_int 15
   \<and> Reactor_run [AddInput 1, AddOutput 2, AddOutput 3] (Reactor_init True, reactor_test_store)
     = (reactor_test_device, reactor_test_store)
   \<and> Reactor_updateOutputs (reactor_test_device, reactor_test_store)
     = (Returned, reactor_test_device, reactor_test_updated)
   \<and> getMassFlow (reactor_test_updated 1) = getMassFlow (reactor_test_store 1)
   \<and> getMassFlow (reactor_test_updated 2) = double_of_int 15
   \<and> fst (Reactor_updateOutputs (reactor_test_device, reactor_test_updated)) = Returned
   \<and> getMassFlow (snd (snd (Reactor_updateOutputs (reactor_test_device, reactor_test_updated))) 2)
       = double_of_int 15"
proof -
  have retM: "Mixer_updateOutputs (mixer_test_device, mixer_test_store)
     = (Returned, mixer_test_device, mixer_test_updated)"
    by (simp add: mixer_test_updated_def mixer_test_update)
  have valM: "getMassFlow (mixer_test_updated 1) = getMassFlow (mixer_test_store 1)"
    "getMassFlow (mixer_test_updated 2) = getMassFlow (mixer_test_store 2)"
    "getMassFlow (mixer_test_updated 3) = double_of_int 15"
    by (simp_all add: mixer_test_updated_def mixer_test_update getMassFlow_def setMassFlow_def)
  then have sameM: "\<forall>i \<in> set (inputs mixer_test_device).
      getMassFlow (mixer_test_updated i) = getMassFlow (mixer_test_store i)"
    by (simp add: mixer_test_device_def)
  have outM: "3 \<in> set (outputs mixer_test_device)"
    by (simp add: mixer_test_device_def)
  have reach: "Reactor_run [AddInput 1, AddOutput 2, AddOutput 3]
      (Reactor_init True, reactor_test_store) = (reactor_test_device, reactor_test_store)"
    by (rule Reactor_test_run)
  have retR: "Reactor_updateOutputs (reactor_test_device, reactor_test_store)
     = (Returned, reactor_test_device, reactor_test_updated)"
    by (simp add: reactor_test_updated_def reactor_test_update)
  have valR: "getMassFlow (reactor_test_updated 1) = getMassFlow (reactor_test_store 1)"
    "getMassFlow (reactor_test_updated 2) = double_of_int 15"
    by (simp_all add: reactor_test_updated_def reactor_test_update getMassFlow_def
        setMassFlow_def)
  then have sameR: "\<forall>i \<in> set (inputs reactor_test_device).
      getMassFlow (reactor_test_updated i) = getMassFlow (reactor_test_store i)"
    by (simp add: reactor_test_device_def)
  have outR: "2 \<in> set (outputs reactor_test_device)"
    by (simp add: reactor_test_device_def)
  from updateOutputs_idempotent [of mixer_test_device mixer_test_store mixer_test_device
      mixer_test_updated mixer_test_updated "[AddInput 1, AddOutput 2, AddOutput 3]" True
      reactor_test_store reactor_test_device reactor_test_store reactor_test_device
      reactor_test_updated reactor_test_updated]
    retM sameM outM reach retR sameR outR valM valR
  show ?thesis by simp
qed

end
